theory Spec2Isabelle
  imports Complex_Main "HOL-Library.Word" "HOL-Library.Multiset"
begin

unbundle bit_operations_syntax

section \<open>The seeded generator (cyrb128 + sfc32)\<close>

text \<open>
  Source: \<^verbatim>\<open>src/audio/AudioEngine.ts\<close>, functions \<^verbatim>\<open>cyrb128\<close>, \<^verbatim>\<open>sfc32\<close>, \<^verbatim>\<open>makeRng\<close>.

  A JavaScript string is a sequence of UTF-16 code units; \<^verbatim>\<open>charCodeAt\<close> returns one unit,
  a number below 65536. \<^verbatim>\<open>Math.imul\<close>, \<^verbatim>\<open>^\<close>, \<^verbatim>\<open>|\<close>, \<^verbatim>\<open><<\<close> and \<^verbatim>\<open>>>>\<close> work on the low
  32 bits of their operands, and \<^verbatim>\<open>| 0\<close> and \<^verbatim>\<open>>>> 0\<close> reduce a sum modulo \<open>2 ^ 32\<close> (the
  sums involved stay far below \<open>2 ^ 53\<close>, so they are exact before the reduction). All of
  these are therefore operations of \<open>32 word\<close>.
\<close>

type_synonym u32 = "32 word"
type_synonym jsstring = "16 word list"

definition of_ascii :: "string \<Rightarrow> jsstring" where
  "of_ascii s = map (\<lambda>c. of_nat (of_char c)) s"

type_synonym hash4 = "u32 \<times> u32 \<times> u32 \<times> u32"

definition cyrb128_step :: "hash4 \<Rightarrow> 16 word \<Rightarrow> hash4" where
  "cyrb128_step h ch =
     (case h of (h1, h2, h3, h4) \<Rightarrow>
        let k = (ucast ch :: u32);
            h1' = h2 XOR ((h1 XOR k) * 597399067);
            h2' = h3 XOR ((h2 XOR k) * 2869860233);
            h3' = h4 XOR ((h3 XOR k) * 951274213);
            h4' = h1' XOR ((h4 XOR k) * 2716044179)
        in (h1', h2', h3', h4'))"

definition cyrb128 :: "jsstring \<Rightarrow> hash4" where
  "cyrb128 str =
     (case foldl cyrb128_step (1779033703, 3144134277, 1013904242, 2773480762) str of
        (h1, h2, h3, h4) \<Rightarrow>
          let h1' = (h3 XOR drop_bit 18 h1) * 597399067;
              h2' = (h4 XOR drop_bit 22 h2) * 2869860233;
              h3' = (h1' XOR drop_bit 17 h3) * 951274213;
              h4' = (h2' XOR drop_bit 19 h4) * 2716044179
          in (h1' XOR h2' XOR h3' XOR h4', h1', h2', h3'))"

text \<open>
  The closure returned by \<^verbatim>\<open>sfc32\<close> owns four mutable numbers; a call updates them and
  returns \<^verbatim>\<open>(t >>> 0) / 4294967296\<close>. The quotient of an integer below \<open>2 ^ 32\<close> by a power
  of two is exact in IEEE double precision, so the returned number is this rational.
\<close>

record sfc =
  sa :: u32
  sb :: u32
  sc :: u32
  sd :: u32

definition sfc32 :: "u32 \<Rightarrow> u32 \<Rightarrow> u32 \<Rightarrow> u32 \<Rightarrow> sfc" where
  "sfc32 a b c d = \<lparr>sa = a, sb = b, sc = c, sd = d\<rparr>"

definition sfc32_word :: "sfc \<Rightarrow> u32 \<times> sfc" where
  "sfc32_word g =
     (let a = sa g; b = sb g; c = sc g; d = sd g;
          t = a + b;
          a' = b XOR drop_bit 9 b;
          b' = c + push_bit 3 c;
          c1 = push_bit 21 c OR drop_bit 11 c;
          d' = d + 1;
          t' = t + d';
          c' = c1 + t'
      in (t', \<lparr>sa = a', sb = b', sc = c', sd = d'\<rparr>))"

definition u32_real :: "u32 \<Rightarrow> real" where
  "u32_real t = real (unat t)"

definition sfc32_next :: "sfc \<Rightarrow> real \<times> sfc" where
  "sfc32_next g = (case sfc32_word g of (t, g') \<Rightarrow> (u32_real t / 4294967296, g'))"

definition makeRng :: "jsstring \<Rightarrow> sfc" where
  "makeRng seed = (case cyrb128 seed of (s0, s1, s2, s3) \<Rightarrow> sfc32 s0 s1 s2 s3)"

text \<open>The value returned by call number \<open>N\<close> (counted from 0) of a generator.\<close>

fun rng_nth :: "sfc \<Rightarrow> nat \<Rightarrow> real" where
  "rng_nth g 0 = fst (sfc32_next g)"
| "rng_nth g (Suc n) = rng_nth (snd (sfc32_next g)) n"

section \<open>Euclidean rhythm patterns\<close>

text \<open>
  Source: function \<^verbatim>\<open>euclid\<close>. Its arguments are JavaScript numbers; the model covers
  integer arguments. Inside the loop a division by zero does not raise: \<^verbatim>\<open>x / 0\<close> is an
  infinity or \<^verbatim>\<open>NaN\<close>, \<^verbatim>\<open>x % 0\<close> is \<^verbatim>\<open>NaN\<close>, and every comparison with \<^verbatim>\<open>NaN\<close> is
  false. The numbers held by \<^verbatim>\<open>counts\<close>, \<^verbatim>\<open>remainders\<close> and \<^verbatim>\<open>divisor\<close> are therefore
  integers extended with these three values. \<^verbatim>\<open>Math.floor(a / b)\<close> of two integers is the
  floor of the exact quotient (the operands are far below \<open>2 ^ 53\<close>), which is \<open>div\<close>;
  \<^verbatim>\<open>%\<close> takes the sign of the dividend. Negative zero does not arise from the operands the
  loop sees and is not told apart from zero.
\<close>

datatype jsnum = Fin int | PosInf | NegInf | NaN

fun js_floor_div :: "jsnum \<Rightarrow> jsnum \<Rightarrow> jsnum" where
  "js_floor_div (Fin a) (Fin b) =
     (if b = 0 then (if a = 0 then NaN else if 0 < a then PosInf else NegInf)
      else Fin (a div b))"
| "js_floor_div (Fin a) PosInf = Fin 0"
| "js_floor_div (Fin a) NegInf = Fin 0"
| "js_floor_div PosInf (Fin b) = (if b < 0 then NegInf else PosInf)"
| "js_floor_div NegInf (Fin b) = (if b < 0 then PosInf else NegInf)"
| "js_floor_div _ _ = NaN"

definition trunc_rem :: "int \<Rightarrow> int \<Rightarrow> int" where
  "trunc_rem a b = sgn a * (\<bar>a\<bar> mod \<bar>b\<bar>)"

fun js_rem :: "jsnum \<Rightarrow> jsnum \<Rightarrow> jsnum" where
  "js_rem (Fin a) (Fin b) = (if b = 0 then NaN else Fin (trunc_rem a b))"
| "js_rem (Fin a) PosInf = Fin a"
| "js_rem (Fin a) NegInf = Fin a"
| "js_rem _ _ = NaN"

fun js_le_one :: "jsnum \<Rightarrow> bool" where
  "js_le_one (Fin a) = (a \<le> 1)"
| "js_le_one NegInf = True"
| "js_le_one _ = False"

text \<open>
  Reading an array outside its bounds gives \<^verbatim>\<open>undefined\<close>: \<open>None\<close> in \<open>js_get\<close>. In
  arithmetic and in comparisons \<^verbatim>\<open>undefined\<close> behaves as \<^verbatim>\<open>NaN\<close>, which is what \<open>num_at\<close>
  returns there. \<open>loop_bound c\<close> is the number of passes of \<^verbatim>\<open>for (i = 0; i < c; i++)\<close>,
  \<open>None\<close> when the loop has no end; \<open>js_nonzero x\<close> is \<^verbatim>\<open>x !== 0\<close>.
\<close>

definition js_get :: "'a list \<Rightarrow> int \<Rightarrow> 'a option" where
  "js_get xs i = (if 0 \<le> i \<and> i < int (length xs) then Some (xs ! nat i) else None)"

fun loop_bound :: "jsnum option \<Rightarrow> nat option" where
  "loop_bound (Some (Fin c)) = Some (nat c)"
| "loop_bound (Some PosInf) = None"
| "loop_bound _ = Some 0"

fun js_nonzero :: "jsnum option \<Rightarrow> bool" where
  "js_nonzero (Some (Fin a)) = (a \<noteq> 0)"
| "js_nonzero _ = True"

definition num_at :: "jsnum list \<Rightarrow> nat \<Rightarrow> jsnum" where
  "num_at xs i = (if i < length xs then xs ! i else NaN)"

text \<open>
  The \<^verbatim>\<open>while (true)\<close> loop, on the state \<^verbatim>\<open>(counts, remainders, divisor, level)\<close>. It is a
  partial function: \<open>None\<close> means that the loop never exits.
\<close>

type_synonym bj_state = "jsnum list \<times> jsnum list \<times> jsnum \<times> nat"

partial_function (option) bjorklund_loop :: "bj_state \<Rightarrow> bj_state option" where
  "bjorklund_loop st =
     (case st of (counts, remainders, divisor, level) \<Rightarrow>
        let counts' = counts @ [js_floor_div divisor (num_at remainders level)];
            remainders' = remainders @ [js_rem divisor (num_at remainders level)];
            divisor' = num_at remainders' level;
            level' = level + 1
        in if js_le_one (num_at remainders' level')
           then Some (counts', remainders', divisor', level')
           else bjorklund_loop (counts', remainders', divisor', level'))"

declare bjorklund_loop.simps [code]

text \<open>
  The inner function \<^verbatim>\<open>build\<close>, which reads the two arrays. Below level \<open>-2\<close> the source
  recurses without end, and so it does on an infinite count: \<open>None\<close>.
\<close>

function build :: "jsnum list \<Rightarrow> jsnum list \<Rightarrow> int \<Rightarrow> nat list option" where
  "build counts remainders level =
     (if level = - 1 then Some [0]
      else if level = - 2 then Some [1]
      else if level < - 2 then None
      else
        (case loop_bound (js_get counts level) of
           None \<Rightarrow> None
         | Some c \<Rightarrow>
             (case (if c = 0 then Some []
                    else map_option (\<lambda>a. concat (replicate c a))
                           (build counts remainders (level - 1))) of
                None \<Rightarrow> None
              | Some seq \<Rightarrow>
                  if js_nonzero (js_get remainders level)
                  then map_option (\<lambda>b. seq @ b) (build counts remainders (level - 2))
                  else Some seq)))"
  by pat_completeness auto
termination
  by (relation "measure (\<lambda>(counts, remainders, level). nat (level + 2))") auto

text \<open>
  \<^verbatim>\<open>euclid(k, n, rot)\<close>. The result is \<open>None\<close> when the call does not return. The rotation
  is only reached after the loop, where \<open>n \<ge> 1\<close> (lemma \<open>euclid_rotate\<close> below), so the
  index \<^verbatim>\<open>((rot % n) + n) % n\<close> lies in \<open>[0, n)\<close> and \<^verbatim>\<open>slice\<close> is \<open>drop\<close> and \<open>take\<close>.
\<close>

definition euclid :: "int \<Rightarrow> int \<Rightarrow> int \<Rightarrow> nat list option" where
  "euclid k0 n rot0 =
     (let k = max 0 (min k0 n) in
      case bjorklund_loop ([], [Fin k], Fin (n - k), 0) of
        None \<Rightarrow> None
      | Some (counts, remainders, divisor, level) \<Rightarrow>
          (case build (counts @ [divisor]) remainders (int level) of
             None \<Rightarrow> None
           | Some pattern \<Rightarrow>
               let rot = nat (trunc_rem (trunc_rem rot0 n + n) n)
               in Some (map (\<lambda>x. if x \<noteq> 0 then 1 else 0)
                          (drop rot pattern @ take rot pattern))))"

declare build.simps [simp del]

section \<open>The engine\<close>

text \<open>
  Source: class \<^verbatim>\<open>AudioEngine\<close>. Its fields are the record \<open>engine\<close>; \<open>interval_handle\<close> is
  the dynamic property \<^verbatim>\<open>_int\<close>. Times, tempo, swing and amplitudes are JavaScript doubles
  and are modelled as reals: the rounding of floating-point arithmetic is not modelled.
  Lengths, densities, the step counter and note numbers are integers. The nodes of the
  audio graph are not part of the state: a call that sets a parameter of a node or
  triggers a voice is recorded as an output of the function that makes it.

  The field \<^verbatim>\<open>rng\<close> is initialised with \<^verbatim>\<open>Math.random\<close> and replaced by \<^verbatim>\<open>setSeed\<close>, which the
  constructor calls before anything draws from it; \<open>field_defaults\<close> holds a placeholder.
  \<^verbatim>\<open>Math.floor(this.rng() * m)\<close> is exact for the small integers \<open>m\<close> used: the product of
  \<open>t / 2 ^ 32\<close> and \<open>m\<close> needs fewer than 53 bits.
\<close>

definition clamp :: "real \<Rightarrow> real \<Rightarrow> real \<Rightarrow> real" where
  "clamp x a b = min b (max a x)"

definition lerp :: "real \<Rightarrow> real \<Rightarrow> real \<Rightarrow> real" where
  "lerp a b t = a + (b - a) * t"

definition SCALES :: "int list list" where
  "SCALES = [[0,1,3,5,7,8,10], [0,1,3,5,6,8,10], [0,2,4,6,8,10], [0,2,3,5,7,9,10],
             [0,2,3,5,7,8,11], [0,2,3,5,6,8,9,11]]"

record engine =
  rng :: sfc
  running :: bool
  nextNoteTime :: real
  beat :: int
  lookahead :: real
  scheduleAheadTime :: real
  bpm :: real
  swing :: real
  vol :: real
  Lk :: int
  Ls :: int
  Lh :: int
  La :: int
  Lb :: int
  Lp :: int
  denKick :: int
  denSnare :: int
  denHat :: int
  denArp :: int
  denBass :: int
  denClaps :: int
  baseNote :: int
  scale :: "int list"
  interval_handle :: "nat option"

definition rng_floor :: "int \<Rightarrow> sfc \<Rightarrow> int \<times> sfc" where
  "rng_floor m g = (case sfc32_next g of (v, g') \<Rightarrow> (\<lfloor>v * of_int m\<rfloor>, g'))"

definition setSeed :: "jsstring \<Rightarrow> engine \<Rightarrow> engine" where
  "setSeed seed s =
     (let primes = [13, 15, 17, 19];
          g0 = makeRng seed;
          (i1, g1) = rng_floor (int (length primes)) g0;
          (i2, g2) = rng_floor 3 g1;
          (i3, g3) = rng_floor (int (length primes)) g2;
          (i4, g4) = rng_floor 4 g3;
          (i5, g5) = rng_floor (int (length primes)) g4;
          (d1, g6) = rng_floor 4 g5;
          (d2, g7) = rng_floor 4 g6;
          (d3, g8) = rng_floor 6 g7;
          (d4, g9) = rng_floor 6 g8;
          (d5, g10) = rng_floor 5 g9;
          (d6, g11) = rng_floor 3 g10;
          (i6, g12) = rng_floor (int (length SCALES)) g11;
          (b, g13) = rng_floor 8 g12
      in s\<lparr>rng := g13,
            Lk := primes ! nat i1,
            Ls := [12, 14, 16] ! nat i2,
            Lh := primes ! nat i3,
            La := [10, 11, 14, 18] ! nat i4,
            Lb := primes ! nat i5,
            Lp := 16,
            denKick := 4 + d1,
            denSnare := 3 + d2,
            denHat := 8 + d3,
            denArp := 5 + d4,
            denBass := 4 + d5,
            denClaps := 2 + d6,
            scale := SCALES ! nat i6,
            baseNote := 32 + b\<rparr>)"

definition field_defaults :: engine where
  "field_defaults =
     \<lparr>rng = sfc32 0 0 0 0, running = False, nextNoteTime = 0, beat = 0,
      lookahead = 0.025, scheduleAheadTime = 0.15, bpm = 110, swing = 0, vol = 0.8,
      Lk = 15, Ls = 12, Lh = 17, La = 14, Lb = 13, Lp = 16,
      denKick = 5, denSnare = 4, denHat = 9, denArp = 6, denBass = 6, denClaps = 3,
      baseNote = 36, scale = SCALES ! 0, interval_handle = None\<rparr>"

definition new_engine :: "jsstring \<Rightarrow> engine" where
  "new_engine seed = setSeed seed field_defaults"

text \<open>
  \<^verbatim>\<open>updateControls(c)\<close>, with \<^verbatim>\<open>ctx.currentTime\<close> as a parameter. \<^verbatim>\<open>Math.round\<close> rounds
  halves up, as \<open>round\<close> does.
\<close>

record controls =
  fx :: real
  fy :: real
  approach :: real
  activity :: real
  mode :: real

datatype audio_param = RevGain | DelayGain | PanHats | PanArp

datatype param_call = SetTargetAtTime audio_param real real real

definition tgtBpm :: "controls \<Rightarrow> real" where
  "tgtBpm c = 90 + activity c * 70 + \<bar>fx c\<bar> * 10 + \<bar>fy c\<bar> * 6"

definition updateControls :: "controls \<Rightarrow> real \<Rightarrow> engine \<Rightarrow> engine \<times> param_call list" where
  "updateControls c currentTime s =
     (let k = clamp (activity c) 0 1 in
      (s\<lparr>bpm := lerp (bpm s) (clamp (tgtBpm c) 70 180) 0.08,
         swing := lerp (swing s) (clamp (fy c * 0.12) (- 0.15) 0.15) 0.05,
         denHat := round (8 + k * 8),
         denSnare := round (3 + k * 5)\<rparr>,
       [SetTargetAtTime RevGain (lerp 0.1 0.3 (clamp (approach c * 0.5 + 0.5) 0 1)) currentTime 0.25,
        SetTargetAtTime DelayGain (lerp 0.08 0.22 \<bar>fx c\<bar>) currentTime 0.25,
        SetTargetAtTime PanHats (clamp (fx c) (- 1) 1) currentTime 0.1,
        SetTargetAtTime PanArp (clamp (fy c) (- 1) 1) currentTime 0.1]))"

text \<open>
  \<^verbatim>\<open>scheduleStep(beat, time)\<close>. Each \<^verbatim>\<open>trig...\<close> call is one \<open>trigger\<close> with its arguments; a
  frequency is \<open>None\<close> where the source computes \<^verbatim>\<open>NaN\<close> (a scale degree read outside the
  scale). The source evaluates \<^verbatim>\<open>euclid(...)\<close> before it indexes the pattern, and draws from
  the generator only where \<^verbatim>\<open>&&\<close> gets that far; each role below keeps that order.
  \<^verbatim>\<open>trigPad\<close> draws three more numbers for the detuning of its voices. A call that does
  not return makes the whole step \<open>None\<close>.
\<close>

datatype trigger =
    TrigKick real real
  | TrigSnare real real
  | TrigHat real real
  | TrigClap real real
  | TrigFMBass real "real option" real
  | TrigArp real "real option" real
  | TrigPad real "real option" real "real list"

definition mtof :: "real \<Rightarrow> real" where
  "mtof m = 440 * 2 powr ((m - 69) / 12)"

definition truthy_at :: "nat list \<Rightarrow> int \<Rightarrow> bool" where
  "truthy_at p i = (case js_get p i of Some x \<Rightarrow> x \<noteq> 0 | None \<Rightarrow> False)"

definition draw :: "engine \<Rightarrow> real \<times> engine" where
  "draw s = (case sfc32_next (rng s) of (v, g) \<Rightarrow> (v, s\<lparr>rng := g\<rparr>))"

definition scale_freq :: "engine \<Rightarrow> int \<Rightarrow> int \<Rightarrow> real option" where
  "scale_freq s i offset =
     map_option (\<lambda>deg. mtof (of_int (baseNote s + offset + deg)))
       (js_get (scale s) (trunc_rem i (int (length (scale s)))))"

type_synonym role = "engine \<Rightarrow> (trigger list \<times> engine) option"

definition role_kick :: "int \<Rightarrow> real \<Rightarrow> role" where
  "role_kick beatNo time s =
     (case euclid (denKick s) (Lk s) 0 of
        None \<Rightarrow> None
      | Some p \<Rightarrow>
          if truthy_at p (trunc_rem beatNo (Lk s))
          then (case draw s of (v, s1) \<Rightarrow> Some ([TrigKick time (0.9 + 0.2 * v)], s1))
          else Some ([], s))"

definition role_snare :: "int \<Rightarrow> real \<Rightarrow> role" where
  "role_snare beatNo time s =
     (case euclid (denSnare s) (Ls s) 3 of
        None \<Rightarrow> None
      | Some p \<Rightarrow>
          if truthy_at p (trunc_rem beatNo (Ls s))
          then (case draw s of (g, s1) \<Rightarrow>
                  if g < 0.95
                  then (case draw s1 of (v, s2) \<Rightarrow> Some ([TrigSnare time (1800 + 800 * v)], s2))
                  else Some ([], s1))
          else Some ([], s))"

definition role_hat :: "int \<Rightarrow> real \<Rightarrow> role" where
  "role_hat beatNo time s =
     (case euclid (denHat s) (Lh s) 2 of
        None \<Rightarrow> None
      | Some p \<Rightarrow>
          if truthy_at p (trunc_rem beatNo (Lh s))
          then (case draw s of (v, s1) \<Rightarrow> Some ([TrigHat time (0.25 + 0.1 * v)], s1))
          else Some ([], s))"

definition role_clap :: "int \<Rightarrow> real \<Rightarrow> role" where
  "role_clap beatNo time s =
     (case euclid (denClaps s) (Ls s) 1 of
        None \<Rightarrow> None
      | Some p \<Rightarrow>
          if truthy_at p (trunc_rem beatNo (Ls s))
          then (case draw s of (g, s1) \<Rightarrow>
                  if g < 0.35 then Some ([TrigClap (time + 0.002) 0.18], s1) else Some ([], s1))
          else Some ([], s))"

definition role_bass :: "int \<Rightarrow> real \<Rightarrow> role" where
  "role_bass beatNo time s =
     (let bStep = trunc_rem beatNo (Lb s) in
      case euclid (denBass s) (Lb s) 0 of
        None \<Rightarrow> None
      | Some p \<Rightarrow>
          if truthy_at p bStep
          then (case draw s of (g, s1) \<Rightarrow>
                  if g < 0.85
                  then (case draw s1 of (v, s2) \<Rightarrow>
                          case draw s2 of (w, s3) \<Rightarrow>
                            Some ([TrigFMBass time
                                     (scale_freq s3 (bStep + \<lfloor>v * 3\<rfloor>) (if w < 0.2 then 12 else 0))
                                     0.35], s3))
                  else Some ([], s1))
          else Some ([], s))"

definition role_arp :: "int \<Rightarrow> real \<Rightarrow> role" where
  "role_arp beatNo time s =
     (let aStep = trunc_rem beatNo (La s) in
      case euclid (denArp s) (La s) 0 of
        None \<Rightarrow> None
      | Some p \<Rightarrow>
          if truthy_at p aStep
          then (case draw s of (g, s1) \<Rightarrow>
                  if g < 0.9
                  then (case draw s1 of (v, s2) \<Rightarrow>
                          case draw s2 of (w, s3) \<Rightarrow>
                            Some ([TrigArp time
                                     (scale_freq s3 (aStep * 2 + \<lfloor>v * 2\<rfloor>)
                                        (12 + (if w < 0.3 then 12 else 0)))
                                     0.18], s3))
                  else Some ([], s1))
          else Some ([], s))"

definition trigPad :: "real \<Rightarrow> real option \<Rightarrow> real \<Rightarrow> engine \<Rightarrow> trigger list \<times> engine" where
  "trigPad t freq amp s =
     (case draw s of (v0, s1) \<Rightarrow>
      case draw s1 of (v1, s2) \<Rightarrow>
      case draw s2 of (v2, s3) \<Rightarrow>
        ([TrigPad t freq amp
            [(0 - 1) * 0.6 + (v0 - 0.5) * 0.2,
             (1 - 1) * 0.6 + (v1 - 0.5) * 0.2,
             (2 - 1) * 0.6 + (v2 - 0.5) * 0.2]], s3))"

definition role_pad :: "int \<Rightarrow> real \<Rightarrow> role" where
  "role_pad beatNo time s =
     (let pStep = trunc_rem beatNo (Lp s) in
      if Lp s \<noteq> 0 \<and> trunc_rem pStep 8 = 0
      then (case draw s of (g, s1) \<Rightarrow>
              if g < 0.6
              then (case draw s1 of (v, s2) \<Rightarrow>
                      Some (trigPad time (scale_freq s2 (pStep div 2 + 1) 24) (0.5 + 0.2 * v) s2))
              else Some ([], s1))
      else Some ([], s))"

fun run_roles :: "role list \<Rightarrow> role" where
  "run_roles [] s = Some ([], s)"
| "run_roles (f # fs) s =
     (case f s of
        None \<Rightarrow> None
      | Some (ts, s1) \<Rightarrow>
          (case run_roles fs s1 of
             None \<Rightarrow> None
           | Some (ts', s2) \<Rightarrow> Some (ts @ ts', s2)))"

definition scheduleStep :: "int \<Rightarrow> real \<Rightarrow> role" where
  "scheduleStep beatNo time =
     run_roles [role_kick beatNo time, role_snare beatNo time, role_hat beatNo time,
                role_clap beatNo time, role_bass beatNo time, role_arp beatNo time,
                role_pad beatNo time]"

text \<open>
  \<^verbatim>\<open>scheduler()\<close>, with \<^verbatim>\<open>ctx.currentTime\<close> as the parameter \<open>cur\<close>. It returns the new
  state and the steps it scheduled, each with its step number, its time and its triggers.
  With a negative tempo the cursor moves backwards and the loop, once entered, never
  exits. With tempo 0 the source computes \<^verbatim>\<open>60 / 0 = Infinity\<close>, which the reals do not have:
  the model has no result there either. The engine keeps its tempo in \<open>[70, 180]\<close>.
\<close>

type_synonym sched_step = "int \<times> real \<times> trigger list"

partial_function (option) scheduler_loop ::
    "real \<Rightarrow> real \<Rightarrow> engine \<times> sched_step list \<Rightarrow> (engine \<times> sched_step list) option" where
  "scheduler_loop cur secPerBeat st =
     (case st of (s, steps) \<Rightarrow>
        if nextNoteTime s < cur + scheduleAheadTime s
        then (let step16 = (if trunc_rem (beat s) 2 = 1 then swing s * secPerBeat * 0.5 else 0);
                  t = nextNoteTime s + step16
              in case scheduleStep (beat s) t s of
                   None \<Rightarrow> None
                 | Some (trigs, s1) \<Rightarrow>
                     scheduler_loop cur secPerBeat
                       (s1\<lparr>nextNoteTime := nextNoteTime s1 + 0.25 * secPerBeat,
                           beat := trunc_rem (beat s1 + 1) 4096\<rparr>,
                        steps @ [(beat s, t, trigs)]))
        else Some (s, steps))"

declare scheduler_loop.simps [code]

definition scheduler :: "real \<Rightarrow> engine \<Rightarrow> (engine \<times> sched_step list) option" where
  "scheduler cur s = (if bpm s = 0 then None else scheduler_loop cur (60 / bpm s) (s, []))"

text \<open>
  \<^verbatim>\<open>start()\<close> and \<^verbatim>\<open>stop()\<close>. The host is part of the state: the intervals that are active
  (\<open>timers\<close>), the last handle \<^verbatim>\<open>setInterval\<close> returned (handles are positive), the number
  of \<^verbatim>\<open>start()\<close> calls suspended at \<^verbatim>\<open>await this.ctx.resume()\<close>, and whether the audio context
  is suspended. \<^verbatim>\<open>start()\<close> is asynchronous: \<open>start_call\<close> is its part before the
  \<^verbatim>\<open>await\<close>, \<open>start_resumed\<close> its part after it, run when the promise resolves; when the
  promise rejects, the rest of \<^verbatim>\<open>start()\<close> is skipped and the caller sees the rejection.
  JavaScript runs each of these pieces, and each tick, to completion; what the host
  decides is their order, which is a list of events here. A tick runs only while an
  interval is active.
\<close>

record world =
  eng :: engine
  timers :: "nat list"
  last_id :: nat
  awaiting :: nat
  ctx_suspended :: bool

datatype effect = Scheduled sched_step | ParamCall param_call | StartRejected

definition start_call :: "world \<Rightarrow> world" where
  "start_call w =
     (if running (eng w) then w
      else w\<lparr>eng := (eng w)\<lparr>running := True\<rparr>, awaiting := awaiting w + 1\<rparr>)"

definition start_resumed :: "real \<Rightarrow> world \<Rightarrow> world" where
  "start_resumed currentTime w =
     (let i = last_id w + 1 in
      w\<lparr>eng := (eng w)\<lparr>nextNoteTime := currentTime + 0.05, beat := 0,
                         interval_handle := Some i\<rparr>,
        timers := timers w @ [i], last_id := i\<rparr>)"

definition resume_settled :: "bool \<Rightarrow> real \<Rightarrow> world \<Rightarrow> world \<times> effect list" where
  "resume_settled ok currentTime w =
     (if awaiting w = 0 then (w, [])
      else if ok
      then (start_resumed currentTime (w\<lparr>awaiting := awaiting w - 1, ctx_suspended := False\<rparr>), [])
      else (w\<lparr>awaiting := awaiting w - 1\<rparr>, [StartRejected]))"

definition stop :: "world \<Rightarrow> world" where
  "stop w =
     (if \<not> running (eng w) then w
      else w\<lparr>eng := (eng w)\<lparr>running := False\<rparr>,
             timers := (case interval_handle (eng w) of
                          Some i \<Rightarrow> if i \<noteq> 0 then removeAll i (timers w) else timers w
                        | None \<Rightarrow> timers w),
             ctx_suspended := True\<rparr>)"

definition tick :: "real \<Rightarrow> world \<Rightarrow> (world \<times> effect list) option" where
  "tick currentTime w =
     (if timers w = [] then Some (w, [])
      else (case scheduler currentTime (eng w) of
              None \<Rightarrow> None
            | Some (s, steps) \<Rightarrow> Some (w\<lparr>eng := s\<rparr>, map Scheduled steps)))"

datatype event =
    CallStart
  | ResumeSettled bool real
  | CallStop
  | Tick real
  | CallUpdateControls controls real

fun fire :: "event \<Rightarrow> world \<Rightarrow> (world \<times> effect list) option" where
  "fire CallStart w = Some (start_call w, [])"
| "fire (ResumeSettled ok currentTime) w = Some (resume_settled ok currentTime w)"
| "fire CallStop w = Some (stop w, [])"
| "fire (Tick currentTime) w = tick currentTime w"
| "fire (CallUpdateControls c currentTime) w =
     (case updateControls c currentTime (eng w) of
        (s, calls) \<Rightarrow> Some (w\<lparr>eng := s\<rparr>, map ParamCall calls))"

fun run :: "event list \<Rightarrow> world \<Rightarrow> (world \<times> effect list) option" where
  "run [] w = Some (w, [])"
| "run (e # es) w =
     (case fire e w of
        None \<Rightarrow> None
      | Some (w1, out) \<Rightarrow>
          (case run es w1 of
             None \<Rightarrow> None
           | Some (w2, out') \<Rightarrow> Some (w2, out @ out')))"

definition new_world :: "jsstring \<Rightarrow> world" where
  "new_world seed =
     \<lparr>eng = new_engine seed, timers = [], last_id = 0, awaiting = 0, ctx_suspended = True\<rparr>"

fun is_scheduled :: "effect \<Rightarrow> bool" where
  "is_scheduled (Scheduled x) = True"
| "is_scheduled _ = False"


section \<open>Predicates used in the proofs\<close>

text \<open>
  \<open>onsets\<close> lists the true positions of a pattern and \<open>gaps\<close> the distances from each onset
  to the next one around the cycle. \<open>apply_controls\<close> is a sequence of \<^verbatim>\<open>updateControls\<close>
  calls. The other predicates are loop invariants and frame conditions.
\<close>

definition onsets :: "nat list \<Rightarrow> nat list" where
  "onsets p = filter (\<lambda>i. p ! i \<noteq> 0) [0..<length p]"

definition cyclic_gaps :: "nat \<Rightarrow> nat list \<Rightarrow> nat list" where
  "cyclic_gaps n is =
     (case is of [] \<Rightarrow> [] | i # js \<Rightarrow> map (\<lambda>(a, b). b - a) (zip (i # js) (js @ [i + n])))"

definition gaps :: "nat list \<Rightarrow> nat list" where
  "gaps p = cyclic_gaps (length p) (onsets p)"


definition bj_stuck :: "bj_state \<Rightarrow> bool" where
  "bj_stuck st = (case st of (counts, remainders, divisor, level) \<Rightarrow>
      length remainders = level + 1 \<and> (num_at remainders level = Fin 0 \<or> num_at remainders level = NaN))"

definition bj_inv :: "nat multiset \<Rightarrow> bj_state \<Rightarrow> bool" where
  "bj_inv T st = (case st of (counts, remainders, divisor, level) \<Rightarrow>
     length counts = level \<and> length remainders = level + 1 \<and>
     (\<exists>dv rl a b. divisor = Fin dv \<and> 0 \<le> dv \<and> num_at remainders level = Fin rl \<and> 1 \<le> rl \<and>
        build counts remainders (int level - 1) = Some a \<and>
        build counts remainders (int level - 2) = Some b \<and>
        repeat_mset (nat dv) (mset a) + repeat_mset (nat rl) (mset b) = T))"

definition bj_measure :: "bj_state \<Rightarrow> nat" where
  "bj_measure st = (case st of (counts, remainders, divisor, level) \<Rightarrow>
     (case num_at remainders level of Fin x \<Rightarrow> nat x | _ \<Rightarrow> 0))"

definition euclid_target :: "int \<Rightarrow> int \<Rightarrow> nat multiset" where
  "euclid_target k n = replicate_mset (nat (n - k)) 0 + replicate_mset (nat k) 1"

definition config_ok :: "engine \<Rightarrow> bool" where
  "config_ok s =
     (1 \<le> Lk s \<and> 1 \<le> Ls s \<and> 1 \<le> Lh s \<and> 1 \<le> La s \<and> 1 \<le> Lb s \<and>
      1 \<le> denKick s \<and> 1 \<le> denSnare s \<and> 1 \<le> denHat s \<and> 1 \<le> denArp s \<and>
      1 \<le> denBass s \<and> 1 \<le> denClaps s)"

definition only_rng :: "engine \<Rightarrow> engine \<Rightarrow> bool" where
  "only_rng s s' = (\<exists>g. s' = s\<lparr>rng := g\<rparr>)"

definition rng_role :: "role \<Rightarrow> bool" where
  "rng_role f = (\<forall>s. config_ok s \<longrightarrow> (\<exists>trigs s'. f s = Some (trigs, s') \<and> only_rng s s'))"

definition sched_frame :: "engine \<Rightarrow> engine \<Rightarrow> bool" where
  "sched_frame s s' = (\<exists>g n b. s' = s\<lparr>rng := g, nextNoteTime := n, beat := b\<rparr>)"

definition seeded :: "engine \<Rightarrow> bool" where
  "seeded s =
     (Lk s \<in> {13, 15, 17, 19} \<and> Ls s \<in> {12, 14, 16} \<and> Lh s \<in> {13, 15, 17, 19} \<and>
      La s \<in> {10, 11, 14, 18} \<and> Lb s \<in> {13, 15, 17, 19} \<and> Lp s = 16 \<and>
      4 \<le> denKick s \<and> denKick s \<le> 7 \<and> 3 \<le> denSnare s \<and> denSnare s \<le> 8 \<and>
      8 \<le> denHat s \<and> denHat s \<le> 16 \<and> 5 \<le> denArp s \<and> denArp s \<le> 10 \<and>
      4 \<le> denBass s \<and> denBass s \<le> 8 \<and> 2 \<le> denClaps s \<and> denClaps s \<le> 4)"

section \<open>Observations of a run\<close>



definition interval_ticks :: "real \<Rightarrow> real \<Rightarrow> nat \<Rightarrow> real list" where
  "interval_ticks T0 period n = map (\<lambda>i. T0 + period * real i) [1..<Suc n]"



definition steps_scheduled :: "event list \<Rightarrow> world \<Rightarrow> nat option" where
  "steps_scheduled es w = map_option (\<lambda>r. length (filter is_scheduled (snd r))) (run es w)"


definition world_at_120 :: "jsstring \<Rightarrow> world" where
  "world_at_120 seed = (new_world seed)\<lparr>eng := (new_engine seed)\<lparr>bpm := 120\<rparr>\<rparr>"

section \<open>Properties of the generator\<close>

lemma u32_real_ge0: "0 \<le> u32_real t"
  unfolding u32_real_def by (rule of_nat_0_le_iff)

lemma u32_real_less: "u32_real t < 4294967296"
proof -
  have "unat t < 2 ^ 32" using unsigned_less [of t] by simp
  then have "real (unat t) < real (2 ^ 32)" by (simp only: of_nat_less_iff)
  then show ?thesis unfolding u32_real_def by simp
qed

lemma sfc32_next_range: "0 \<le> fst (sfc32_next g) \<and> fst (sfc32_next g) < 1"
proof -
  obtain t g' where w: "sfc32_word g = (t, g')" by (cases "sfc32_word g")
  show ?thesis using u32_real_ge0 [of t] u32_real_less [of t] by (simp add: sfc32_next_def w)
qed

lemma rng_nth_range: "0 \<le> rng_nth g N \<and> rng_nth g N < 1"
proof (induction N arbitrary: g)
  case 0
  show ?case using sfc32_next_range [of g] by simp
next
  case (Suc N)
  show ?case using Suc.IH [of "snd (sfc32_next g)"] by simp
qed

text \<open>
  C1. Two generators built from the same seed string (any string, the empty one included)
  return equal values at every call index, and every returned value lies in \<open>[0, 1)\<close>.
\<close>

theorem makeRng_deterministic_unit_interval:
  assumes "g1 = makeRng seed" and "g2 = makeRng seed"
  shows "rng_nth g1 N = rng_nth g2 N \<and> 0 \<le> rng_nth g1 N \<and> rng_nth g1 N < 1"
  using assms rng_nth_range [of g1 N] by simp

theorem makeRng_deterministic_unit_interval_witness:
  "makeRng (of_ascii ''abc'') = makeRng (of_ascii ''abc'') \<and>
   rng_nth (makeRng (of_ascii ''abc'')) 2 = rng_nth (makeRng (of_ascii ''abc'')) 2 \<and>
   0 \<le> rng_nth (makeRng (of_ascii ''abc'')) 2 \<and> rng_nth (makeRng (of_ascii ''abc'')) 2 < 1"
  using makeRng_deterministic_unit_interval [OF refl refl, of "of_ascii ''abc''" 2] by simp

section \<open>Properties of the pattern builder\<close>

lemma js_get_in: "i < length xs \<Longrightarrow> js_get xs (int i) = Some (xs ! i)"
  by (simp add: js_get_def)

lemma js_get_append:
  "j < int (length xs) \<Longrightarrow> js_get (xs @ ys) j = js_get xs j"
  by (auto simp: js_get_def nth_append)

lemma build_nonneg:
  "0 \<le> level \<Longrightarrow>
   build counts remainders level =
     (case loop_bound (js_get counts level) of
        None \<Rightarrow> None
      | Some c \<Rightarrow>
          (case (if c = 0 then Some []
                 else map_option (\<lambda>a. concat (replicate c a))
                        (build counts remainders (level - 1))) of
             None \<Rightarrow> None
           | Some seq \<Rightarrow>
               if js_nonzero (js_get remainders level)
               then map_option (\<lambda>b. seq @ b) (build counts remainders (level - 2))
               else Some seq))"
  by (subst build.simps) simp

lemma build_neg:
  "build counts remainders (- 1) = Some [0]"
  "build counts remainders (- 2) = Some [1]"
  "level < - 2 \<Longrightarrow> build counts remainders level = None"
  by (subst build.simps, simp)+

lemma build_append:
  "level < int (length counts) \<Longrightarrow> level < int (length remainders) \<Longrightarrow>
   build (counts @ cs) (remainders @ rs) level = build counts remainders level"
proof (induction "nat (level + 2)" arbitrary: level rule: less_induct)
  case less
  have IH: "build (counts @ cs) (remainders @ rs) j = build counts remainders j"
    if "- 2 \<le> j" "j < level" for j
    using less.hyps [of j] less.prems that by simp
  show ?case
  proof (cases "level < 0")
    case True
    then consider "level = - 1" | "level = - 2" | "level < - 2" by linarith
    then show ?thesis by cases (simp_all add: build_neg)
  next
    case False
    then have g: "js_get (counts @ cs) level = js_get counts level"
      "js_get (remainders @ rs) level = js_get remainders level"
      using less.prems by (simp_all add: js_get_append)
    have nn: "0 \<le> level" using False by simp
    have e: "build (counts @ cs) (remainders @ rs) (level - 1) = build counts remainders (level - 1)"
      "build (counts @ cs) (remainders @ rs) (level - 2) = build counts remainders (level - 2)"
      using False by (simp_all add: IH)
    show ?thesis
      unfolding build_nonneg [OF nn, of "counts @ cs" "remainders @ rs"]
        build_nonneg [OF nn, of counts remainders] e g
      by (rule refl)
  qed
qed

lemma mset_concat_replicate: "mset (concat (replicate n xs)) = repeat_mset n (mset xs)"
  by (induction n) simp_all

lemma js_rem_zero_or_NaN: "y = Fin 0 \<or> y = NaN \<Longrightarrow> js_rem x y = NaN"
  by (cases x) auto

lemma bjorklund_loop_stuck:
  assumes "bjorklund_loop st = Some res"
  shows "\<not> bj_stuck st"
proof (rule bjorklund_loop.raw_induct [where P = "\<lambda>st res. \<not> bj_stuck st" and st = st and y = res])
  fix loop :: "bj_state \<Rightarrow> bj_state option" and st res :: bj_state
  assume IH: "\<And>x y. loop x = Some y \<Longrightarrow> \<not> bj_stuck x"
    and step: "(case st of
      (counts, remainders, divisor, level) \<Rightarrow>
        let counts' = counts @ [js_floor_div divisor (num_at remainders level)];
            remainders' = remainders @ [js_rem divisor (num_at remainders level)];
            divisor' = num_at remainders' level; level' = level + 1
        in if js_le_one (num_at remainders' level')
           then Some (counts', remainders', divisor', level')
           else loop (counts', remainders', divisor', level')) = Some res"
  show "\<not> bj_stuck st"
  proof
    assume stuck: "bj_stuck st"
    obtain c r d l where st: "st = (c, r, d, l)" by (cases st)
    from stuck st have len: "length r = l + 1" and z: "num_at r l = Fin 0 \<or> num_at r l = NaN"
      by (auto simp: bj_stuck_def)
    let ?c' = "c @ [js_floor_div d (num_at r l)]"
    let ?r' = "r @ [js_rem d (num_at r l)]"
    have new: "num_at ?r' (l + 1) = NaN"
      using len js_rem_zero_or_NaN [OF z, of d] by (simp add: num_at_def nth_append)
    have "bj_stuck (?c', ?r', num_at ?r' l, l + 1)"
      using len new by (simp add: bj_stuck_def)
    moreover have "loop (?c', ?r', num_at ?r' l, l + 1) = Some res"
      using step new by (simp add: st Let_def)
    ultimately show False using IH by blast
  qed
next
  show "bjorklund_loop st = Some res" by (rule assms)
qed

lemma euclid_zero_diverges: "euclid 0 n rot = None"
proof (cases "bjorklund_loop ([], [Fin (max 0 (min 0 n))], Fin (n - max 0 (min 0 n)), 0)")
  case None
  then show ?thesis by (simp add: euclid_def Let_def)
next
  case (Some res)
  have "bj_stuck ([], [Fin (max 0 (min 0 n))], Fin (n - max 0 (min 0 n)), 0)"
    by (simp add: bj_stuck_def num_at_def)
  with bjorklund_loop_stuck [OF Some] show ?thesis by simp
qed

lemma trunc_rem_nonneg: "0 \<le> a \<Longrightarrow> 0 < b \<Longrightarrow> trunc_rem a b = a mod b"
  by (cases "a = 0") (simp_all add: trunc_rem_def)

lemma repeat_mset_division:
  assumes "0 \<le> dv" "1 \<le> rl"
  shows "repeat_mset (nat rl) (repeat_mset (nat (dv div rl)) A + B) + repeat_mset (nat (dv mod rl)) A
         = repeat_mset (nat dv) A + repeat_mset (nat rl) B"
proof -
  have "0 \<le> dv div rl" "0 \<le> dv mod rl" using assms by (simp_all add: pos_imp_zdiv_nonneg_iff)
  then have "nat dv = nat rl * nat (dv div rl) + nat (dv mod rl)"
    using assms
    by (metis mult_div_mod_eq nat_add_distrib nat_mult_distrib zero_le_one order_trans mult_nonneg_nonneg)
  then show ?thesis
    by (intro multiset_eqI) (simp add: algebra_simps)
qed

lemma bjorklund_loop_correct:
  assumes "bj_inv T st"
  shows "\<exists>c r d l p. bjorklund_loop st = Some (c, r, d, l) \<and>
           build (c @ [d]) r (int l) = Some p \<and> mset p = T"
  using assms
proof (induction "bj_measure st" arbitrary: st rule: less_induct)
  case less
  obtain c r d l where st: "st = (c, r, d, l)" by (cases st)
  from less.prems st obtain dv rl a b where
    len: "length c = l" "length r = l + 1" and d: "d = Fin dv" "0 \<le> dv"
    and rl: "num_at r l = Fin rl" "1 \<le> rl"
    and a: "build c r (int l - 1) = Some a" and b: "build c r (int l - 2) = Some b"
    and T: "repeat_mset (nat dv) (mset a) + repeat_mset (nat rl) (mset b) = T"
    by (auto simp: bj_inv_def)
  define q where "q = dv div rl"
  define m where "m = dv mod rl"
  define c' where "c' = c @ [Fin q]"
  define r' where "r' = r @ [Fin m]"
  define a' where "a' = concat (replicate (nat q) a) @ b"
  have fd: "js_floor_div d (num_at r l) = Fin q" using d rl by (simp add: q_def)
  have rm: "js_rem d (num_at r l) = Fin m" using d rl by (simp add: m_def trunc_rem_nonneg)
  have rl': "r ! l = Fin rl" using len rl by (simp add: num_at_def)
  have r'l: "num_at r' l = Fin rl" using len rl' by (simp add: num_at_def r'_def nth_append)
  have r'l1: "num_at r' (Suc l) = Fin m" using len by (simp add: num_at_def r'_def nth_append)
  have m_range: "0 \<le> m" "m < rl" using rl by (simp_all add: m_def)
  have q_nonneg: "0 \<le> q" using d rl by (simp add: q_def pos_imp_zdiv_nonneg_iff)
  have ba: "build c' r' (int l - 1) = Some a"
    unfolding c'_def r'_def using len a by (simp add: build_append)
  have bb: "build c' r' (int l - 2) = Some b"
    unfolding c'_def r'_def using len b by (simp add: build_append)
  have gc: "js_get c' (int l) = Some (Fin q)"
    using len by (simp add: js_get_def c'_def nth_append)
  have gr: "js_get r' (int l) = Some (Fin rl)"
    using len rl' by (simp add: js_get_def r'_def nth_append)
  have ba': "build c' r' (int l) = Some a'"
    using rl by (simp add: build_nonneg [of "int l"] gc gr ba bb a'_def)
  have T': "repeat_mset (nat rl) (mset a') + repeat_mset (nat m) (mset a) = T"
    using repeat_mset_division [OF d(2) rl(2), of "mset a" "mset b"] T
    by (simp add: a'_def mset_concat_replicate q_def m_def)
  have step: "bjorklund_loop st =
      (if m \<le> 1 then Some (c', r', Fin rl, l + 1) else bjorklund_loop (c', r', Fin rl, l + 1))"
    by (subst bjorklund_loop.simps)
       (simp add: st Let_def fd rm r'l r'l1 c'_def [symmetric] r'_def [symmetric])
  show ?case
  proof (cases "m \<le> 1")
    case True
    have lenc': "length c' = l + 1" "length r' = l + 2" using len by (simp_all add: c'_def r'_def)
    have e1: "build (c' @ [Fin rl]) r' (int l) = Some a'"
      using build_append [of "int l" c' r' "[Fin rl]" "[]"] lenc' ba' by simp
    have e2: "build (c' @ [Fin rl]) r' (int l - 1) = Some a"
      using build_append [of "int l - 1" c' r' "[Fin rl]" "[]"] lenc' ba by simp
    have i1: "int (Suc l) - 1 = int l" "int (Suc l) - 2 = int l - 1" by simp_all
    have g1: "js_get (c' @ [Fin rl]) (int (Suc l)) = Some (Fin rl)"
      using lenc' js_get_in [of "Suc l" "c' @ [Fin rl]"] by (simp add: nth_append)
    have g2: "js_get r' (int (Suc l)) = Some (Fin m)"
      using lenc' r'l1 js_get_in [of "Suc l" r'] by (simp add: num_at_def)
    define p where "p = concat (replicate (nat rl) a') @ (if m \<noteq> 0 then a else [])"
    have "build (c' @ [Fin rl]) r' (int (Suc l)) = Some p"
      unfolding build_nonneg [of "int (Suc l)" "c' @ [Fin rl]" r', OF of_nat_0_le_iff] i1 g1 g2 e1 e2
      using rl by (simp add: p_def)
    then have fin: "build (c' @ [Fin rl]) r' (int (l + 1)) = Some p" by simp
    have "m = 0 \<or> m = 1" using True m_range by linarith
    then have "mset p = T" using T' by (auto simp: p_def mset_concat_replicate)
    with fin step True show ?thesis by simp
  next
    case False
    have "bj_inv T (c', r', Fin rl, l + 1)"
      using len rl False r'l1 ba' ba T' by (simp add: bj_inv_def c'_def r'_def add.commute)
    moreover have "bj_measure (c', r', Fin rl, l + 1) < bj_measure st"
      using m_range False rl by (simp add: bj_measure_def st r'l1)
    ultimately show ?thesis using less.hyps step False by simp
  qed
qed

lemma euclid_returns:
  assumes "1 \<le> k" "k \<le> n"
  shows "\<exists>p. euclid k n rot = Some p \<and> mset p = euclid_target k n"
proof -
  have k: "max 0 (min k n) = k" using assms by simp
  have "bj_inv (euclid_target k n) ([], [Fin k], Fin (n - k), 0)"
    using assms by (simp add: bj_inv_def num_at_def build_neg euclid_target_def)
  from bjorklund_loop_correct [OF this] obtain c r d l p where
    loop: "bjorklund_loop ([], [Fin k], Fin (n - k), 0) = Some (c, r, d, l)"
    and b: "build (c @ [d]) r (int l) = Some p" and m: "mset p = euclid_target k n"
    by blast
  define rot' where "rot' = nat (trunc_rem (trunc_rem rot n + n) n)"
  have "set_mset (mset p) \<subseteq> {0, 1}"
    unfolding m euclid_target_def by (auto split: if_splits)
  then have "set p \<subseteq> {0, 1}" by simp
  then have id: "map (\<lambda>x. if x \<noteq> 0 then 1 else 0) xs = xs" if "set xs \<subseteq> set p" for xs :: "nat list"
    using that by (intro map_idI) auto
  have "set (drop rot' p @ take rot' p) \<subseteq> set p"
    using set_drop_subset [of rot' p] set_take_subset [of rot' p] by auto
  from id [OF this]
  have e: "euclid k n rot = Some (drop rot' p @ take rot' p)"
    by (simp add: euclid_def k loop b Let_def rot'_def)
  have "mset (drop rot' p @ take rot' p) = mset p"
  proof -
    have "mset p = mset (take rot' p @ drop rot' p)" by (simp only: append_take_drop_id)
    also have "\<dots> = mset (take rot' p) + mset (drop rot' p)" by (rule mset_append)
    finally show ?thesis by (simp only: mset_append union_commute)
  qed
  with e m show ?thesis by simp
qed

lemma trunc_rem_pos: "0 \<le> a \<Longrightarrow> 0 < n \<Longrightarrow> trunc_rem a n = a mod n"
  by (rule trunc_rem_nonneg)

lemma trunc_rem_neg: "a < 0 \<Longrightarrow> 0 < n \<Longrightarrow> trunc_rem a n = - ((- a) mod n)"
  by (simp add: trunc_rem_def)

lemma rot_normal:
  assumes "0 < n"
  shows "trunc_rem (trunc_rem r n + n) n = r mod n"
proof (cases "0 \<le> r")
  case True
  have "0 \<le> r mod n" using assms by simp
  then have "trunc_rem (r mod n + n) n = (r mod n + n) mod n"
    using assms by (intro trunc_rem_pos) simp_all
  then show ?thesis using True assms by (simp add: trunc_rem_pos)
next
  case False
  define m where "m = (- r) mod n"
  have m: "0 \<le> m" "m < n" using assms by (simp_all add: m_def)
  have t: "trunc_rem r n = - m" using False assms by (simp add: trunc_rem_neg m_def)
  have "trunc_rem (- m + n) n = (- m + n) mod n"
    using m assms by (intro trunc_rem_pos) simp_all
  also have "\<dots> = (- m) mod n" by simp
  also have "\<dots> = (- (- r)) mod n" unfolding m_def by (simp add: mod_minus_eq)
  finally show ?thesis using t by simp
qed

lemma euclid_rot_mod:
  assumes "0 < n"
  shows "euclid k n r = euclid k n (r mod n)"
proof -
  have e: "trunc_rem (trunc_rem (r mod n) n + n) n = trunc_rem (trunc_rem r n + n) n"
    using assms by (simp add: rot_normal)
  show ?thesis unfolding euclid_def e by (rule refl)
qed

lemma euclid_rotation_normalised:
  assumes "0 < n"
  shows "euclid k n (r + n) = euclid k n r"
    and "euclid k n (trunc_rem (trunc_rem r n + n) n) = euclid k n r"
proof -
  show "euclid k n (r + n) = euclid k n r"
    using euclid_rot_mod [OF assms, of k "r + n"] euclid_rot_mod [OF assms, of k r] by simp
  show "euclid k n (trunc_rem (trunc_rem r n + n) n) = euclid k n r"
    using euclid_rot_mod [OF assms, of k r] by (simp add: rot_normal [OF assms])
qed

lemma euclid_rotate:
  assumes "1 \<le> k" "k \<le> n"
  shows "\<exists>p. euclid k n 0 = Some p \<and> length p = nat n \<and>
           euclid k n r = Some (rotate (nat (r mod n)) p)"
proof -
  have n: "0 < n" using assms by simp
  from euclid_returns [OF assms, of 0] obtain p where
    p: "euclid k n 0 = Some p" and m: "mset p = euclid_target k n" by blast
  have "size (mset p) = nat (n - k) + nat k" unfolding m euclid_target_def by simp
  then have len: "length p = nat n" using assms by simp
  have k: "max 0 (min k n) = k" using assms by simp
  from p obtain c rm d l q where
    loop: "bjorklund_loop ([], [Fin k], Fin (n - k), 0) = Some (c, rm, d, l)"
    and b: "build (c @ [d]) rm (int l) = Some q"
    by (auto simp: euclid_def k Let_def split: option.splits)
  have z: "trunc_rem (trunc_rem 0 n + n) n = 0" using rot_normal [OF n, of 0] by simp
  have p': "p = map (\<lambda>x. if x \<noteq> 0 then 1 else 0) q"
    using p by (simp add: euclid_def k loop b Let_def z)
  define j where "j = nat (r mod n)"
  have j: "j < length p" using n len by (simp add: j_def)
  have "euclid k n r = Some (map (\<lambda>x. if x \<noteq> 0 then 1 else 0) (drop j q @ take j q))"
    by (simp add: euclid_def k loop b Let_def rot_normal [OF n] j_def)
  also have "map (\<lambda>x. if x \<noteq> 0 then 1 else 0) (drop j q @ take j q) = drop j p @ take j p"
    by (simp add: p' drop_map take_map)
  also have "drop j p @ take j p = rotate j p"
    using j by (simp add: rotate_drop_take)
  finally show ?thesis using p len unfolding j_def by blast
qed

lemma onsets_Cons:
  "onsets (x # xs) = (if x \<noteq> 0 then [0] else []) @ map Suc (onsets xs)"
proof -
  have "[0..<length (x # xs)] = 0 # map Suc [0..<length xs]"
    by (simp add: upt_conv_Cons map_Suc_upt del: upt_Suc)
  then show ?thesis by (simp add: onsets_def filter_map comp_def del: upt_Suc)
qed

lemma onsets_snoc:
  "onsets (xs @ [x]) = onsets xs @ (if x \<noteq> 0 then [length xs] else [])"
proof -
  have "filter (\<lambda>i. (xs @ [x]) ! i \<noteq> 0) [0..<length xs] = filter (\<lambda>i. xs ! i \<noteq> 0) [0..<length xs]"
    by (rule filter_cong) (simp_all add: nth_append)
  then show ?thesis by (simp add: onsets_def)
qed

lemma cyclic_gaps_Suc: "cyclic_gaps n (map Suc is) = cyclic_gaps n is"
proof (cases "is")
  case Nil
  then show ?thesis by (simp add: cyclic_gaps_def)
next
  case (Cons i js)
  have "zip (map Suc (i # js)) (map Suc (js @ [i + n])) =
        map (\<lambda>(a, b). (Suc a, Suc b)) (zip (i # js) (js @ [i + n]))"
    by (simp only: zip_map_map)
  then show ?thesis by (simp add: cyclic_gaps_def Cons split_def comp_def)
qed

lemma gaps_rotate1: "mset (gaps (rotate1 p)) = mset (gaps p)"
proof (cases p)
  case Nil
  then show ?thesis by simp
next
  case (Cons x xs)
  then have p: "p = x # xs" .
  define n where "n = length xs"
  show ?thesis
  proof (cases "x = 0")
    case True
    then show ?thesis
      by (simp add: p gaps_def onsets_Cons onsets_snoc cyclic_gaps_Suc)
  next
    case False
    show ?thesis
    proof (cases "onsets xs")
      case Nil
      then show ?thesis using False
        by (simp add: p gaps_def onsets_Cons onsets_snoc cyclic_gaps_def)
    next
      case (Cons j r)
      then have os: "onsets xs = j # r" .
      define G where "G = map (\<lambda>(a, b). b - a) (zip (j # r) (r @ [n]))"
      have a: "gaps (x # xs) = Suc j # G"
      proof -
        have "zip (map Suc (j # r)) (map Suc (r @ [n])) =
              map (\<lambda>(a, b). (Suc a, Suc b)) (zip (j # r) (r @ [n]))"
          by (simp only: zip_map_map)
        then show ?thesis using False
          by (simp add: gaps_def onsets_Cons os cyclic_gaps_def G_def n_def split_def comp_def)
      qed
      have "zip ((j # r) @ [n]) ((r @ [n]) @ [j + Suc n]) =
            zip (j # r) (r @ [n]) @ zip [n] [j + Suc n]"
        by (rule zip_append) simp
      then have b: "gaps (xs @ [x]) = G @ [Suc j]" using False
        by (simp add: gaps_def onsets_snoc os cyclic_gaps_def G_def n_def)
      show ?thesis unfolding p rotate1.simps a b by simp
    qed
  qed
qed

lemma gaps_rotate: "mset (gaps (rotate m p)) = mset (gaps p)"
  by (induction m) (simp_all add: gaps_rotate1)

lemma count_nonzero:
  "set p \<subseteq> {0, 1 :: nat} \<Longrightarrow> length (filter (\<lambda>x. x \<noteq> 0) p) = count (mset p) 1"
  by (induction p) auto

lemma euclid_length_count:
  assumes "1 \<le> k" "k \<le> n"
  shows "\<exists>p. euclid k n rot = Some p \<and> length p = nat n \<and>
           length (filter (\<lambda>x. x \<noteq> 0) p) = nat k \<and> set p \<subseteq> {0, 1}"
proof -
  from euclid_returns [OF assms, of rot] obtain p where
    p: "euclid k n rot = Some p" and m: "mset p = euclid_target k n" by blast
  have "size (mset p) = nat (n - k) + nat k" unfolding m euclid_target_def by simp
  then have len: "length p = nat n" using assms by simp
  have "set_mset (mset p) \<subseteq> {0, 1}"
    unfolding m euclid_target_def by (auto split: if_splits)
  then have s: "set p \<subseteq> {0, 1}" by simp
  have "count (mset p) 1 = nat k" unfolding m euclid_target_def by simp
  with count_nonzero [OF s] have cnt: "length (filter (\<lambda>x. x \<noteq> 0) p) = nat k" by simp
  from p len cnt s show ?thesis by blast
qed

lemma euclid_rotation_laws:
  assumes "1 \<le> k" "k \<le> n"
  shows "\<exists>p p0. euclid k n r = Some p \<and> euclid k n (r + n) = Some p \<and>
           euclid k n (trunc_rem (trunc_rem r n + n) n) = Some p \<and>
           euclid k n 0 = Some p0 \<and> p = rotate (nat (r mod n)) p0 \<and>
           mset (gaps p) = mset (gaps p0)"
proof -
  have n: "0 < n" using assms by simp
  from euclid_rotate [OF assms, of r] obtain p0 where
    p0: "euclid k n 0 = Some p0" and r: "euclid k n r = Some (rotate (nat (r mod n)) p0)"
    by blast
  have a: "euclid k n (r + n) = Some (rotate (nat (r mod n)) p0)"
    and b: "euclid k n (trunc_rem (trunc_rem r n + n) n) = Some (rotate (nat (r mod n)) p0)"
    using euclid_rotation_normalised [OF n, of k r] r by (simp_all only:)
  from r a b p0 gaps_rotate [of "nat (r mod n)" p0] show ?thesis by blast
qed

text \<open>
  C2. The claim: for \<open>0 \<le> k \<le> n\<close>, \<open>n \<ge> 1\<close>, \<^verbatim>\<open>euclid(k, n, 0)\<close> returns \<open>n\<close> values of
  which exactly \<open>k\<close> are true, and \<^verbatim>\<open>euclid(0, n, 0)\<close> is all-false. For \<open>1 \<le> k \<le> n\<close> this
  is lemma \<open>euclid_length_count\<close>. For \<open>k = 0\<close> the first pass of the loop divides by
  \<^verbatim>\<open>remainders[0] = 0\<close>, every later remainder is \<^verbatim>\<open>NaN\<close>, the exit test \<^verbatim>\<open>NaN <= 1\<close> is
  false, and the call never returns, whatever \<open>n\<close> is.
\<close>

theorem euclid_no_onsets_never_returns: "euclid 0 n 0 = None"
  by (rule euclid_zero_diverges)

text \<open>
  C3. The claim: the true positions of \<^verbatim>\<open>euclid(3, 8, 0)\<close> are exactly \<open>{0, 3, 6}\<close>. The
  builder starts each group with its rests, and nothing rotates the result to its first
  onset, so the positions are not \<open>{0, 3, 6}\<close>.
\<close>

theorem euclid_3_8_onsets_not_0_3_6: "map_option onsets (euclid 3 8 0) \<noteq> Some [0, 3, 6]"
  by code_simp

text \<open>
  C3, as the code has it: \<^verbatim>\<open>euclid(3, 8, 0)\<close> returns the 8-step pattern with exactly 3 true
  values whose true positions are exactly \<open>{1, 4, 7}\<close>.
\<close>

theorem euclid_3_8_onsets_1_4_7:
  "euclid 3 8 0 = Some [0, 1, 0, 0, 1, 0, 0, 1] \<and>
   map_option length (euclid 3 8 0) = Some 8 \<and>
   map_option onsets (euclid 3 8 0) = Some [1, 4, 7]"
  by code_simp

text \<open>
  C8. The claim: for \<open>0 \<le> k \<le> n\<close>, \<open>n \<ge> 1\<close> and every integer \<open>r\<close>, rotation is normalised
  modulo \<open>n\<close> and is a cyclic permutation. For \<open>1 \<le> k \<le> n\<close> this is lemma
  \<open>euclid_rotation_laws\<close>. With \<open>k = 0\<close> none of the three calls compared by the claim
  returns a pattern, for any rotation: the loop that precedes the rotation never exits.
\<close>

theorem euclid_no_onsets_rotation_never_returns:
  "euclid 0 n r = None \<and> euclid 0 n (r + n) = None \<and>
   euclid 0 n (trunc_rem (trunc_rem r n + n) n) = None"
  by (simp add: euclid_zero_diverges)

section \<open>Properties of the control layer and of seeding\<close>


lemma updateControls_frame:
  "Lk (fst (updateControls c t s)) = Lk s \<and> Ls (fst (updateControls c t s)) = Ls s \<and>
   Lh (fst (updateControls c t s)) = Lh s \<and> La (fst (updateControls c t s)) = La s \<and>
   Lb (fst (updateControls c t s)) = Lb s \<and> Lp (fst (updateControls c t s)) = Lp s \<and>
   denKick (fst (updateControls c t s)) = denKick s \<and>
   denClaps (fst (updateControls c t s)) = denClaps s \<and>
   denBass (fst (updateControls c t s)) = denBass s \<and>
   denArp (fst (updateControls c t s)) = denArp s \<and>
   scale (fst (updateControls c t s)) = scale s \<and>
   baseNote (fst (updateControls c t s)) = baseNote s \<and>
   beat (fst (updateControls c t s)) = beat s \<and>
   nextNoteTime (fst (updateControls c t s)) = nextNoteTime s \<and>
   vol (fst (updateControls c t s)) = vol s \<and>
   running (fst (updateControls c t s)) = running s"
  by (simp add: updateControls_def Let_def)

lemma updateControls_only:
  "\<exists>b sw h sn. fst (updateControls c t s) = s\<lparr>bpm := b, swing := sw, denHat := h, denSnare := sn\<rparr>"
  by (auto simp: updateControls_def Let_def)

lemma updateControls_calls:
  "map (\<lambda>x. case x of SetTargetAtTime p v st tc \<Rightarrow> (p, st, tc)) (snd (updateControls c t s)) =
     [(RevGain, t, 0.25), (DelayGain, t, 0.25), (PanHats, t, 0.1), (PanArp, t, 0.1)]"
  by (simp add: updateControls_def Let_def)



lemma rng_floor_range:
  assumes "0 < m" and "rng_floor m g = (i, g')"
  shows "0 \<le> i \<and> i < m"
proof -
  obtain v g1 where n: "sfc32_next g = (v, g1)" by (cases "sfc32_next g")
  have v: "0 \<le> v" "v < 1" using sfc32_next_range [of g] n by simp_all
  have i: "i = \<lfloor>v * of_int m\<rfloor>" using assms(2) by (simp add: rng_floor_def n)
  have "0 \<le> v * of_int m" using v assms(1) by simp
  moreover have "v * of_int m < of_int m" using v assms(1) by simp
  ultimately show ?thesis unfolding i by (simp add: floor_less_iff)
qed

lemma setSeed_shape:
  "\<exists>i1 i2 i3 i4 i5 d1 d2 d3 d4 d5 d6 i6 b g.
     setSeed seed s =
       s\<lparr>rng := g,
         Lk := [13, 15, 17, 19] ! nat i1, Ls := [12, 14, 16] ! nat i2,
         Lh := [13, 15, 17, 19] ! nat i3, La := [10, 11, 14, 18] ! nat i4,
         Lb := [13, 15, 17, 19] ! nat i5, Lp := 16,
         denKick := 4 + d1, denSnare := 3 + d2, denHat := 8 + d3, denArp := 5 + d4,
         denBass := 4 + d5, denClaps := 2 + d6, scale := SCALES ! nat i6, baseNote := 32 + b\<rparr> \<and>
     (0 \<le> i1 \<and> i1 < 4) \<and> (0 \<le> i2 \<and> i2 < 3) \<and> (0 \<le> i3 \<and> i3 < 4) \<and> (0 \<le> i4 \<and> i4 < 4) \<and>
     (0 \<le> i5 \<and> i5 < 4) \<and> (0 \<le> d1 \<and> d1 < 4) \<and> (0 \<le> d2 \<and> d2 < 4) \<and> (0 \<le> d3 \<and> d3 < 6) \<and>
     (0 \<le> d4 \<and> d4 < 6) \<and> (0 \<le> d5 \<and> d5 < 5) \<and> (0 \<le> d6 \<and> d6 < 3) \<and> (0 \<le> i6 \<and> i6 < 6) \<and>
     (0 \<le> b \<and> b < 8)"
proof -
  obtain i1 g1 where e1: "rng_floor 4 (makeRng seed) = (i1, g1)" by fastforce
  obtain i2 g2 where e2: "rng_floor 3 g1 = (i2, g2)" by fastforce
  obtain i3 g3 where e3: "rng_floor 4 g2 = (i3, g3)" by fastforce
  obtain i4 g4 where e4: "rng_floor 4 g3 = (i4, g4)" by fastforce
  obtain i5 g5 where e5: "rng_floor 4 g4 = (i5, g5)" by fastforce
  obtain d1 g6 where e6: "rng_floor 4 g5 = (d1, g6)" by fastforce
  obtain d2 g7 where e7: "rng_floor 4 g6 = (d2, g7)" by fastforce
  obtain d3 g8 where e8: "rng_floor 6 g7 = (d3, g8)" by fastforce
  obtain d4 g9 where e9: "rng_floor 6 g8 = (d4, g9)" by fastforce
  obtain d5 g10 where e10: "rng_floor 5 g9 = (d5, g10)" by fastforce
  obtain d6 g11 where e11: "rng_floor 3 g10 = (d6, g11)" by fastforce
  obtain i6 g12 where e12: "rng_floor 6 g11 = (i6, g12)" by fastforce
  obtain b g13 where e13: "rng_floor 8 g12 = (b, g13)" by fastforce
  have "setSeed seed s =
       s\<lparr>rng := g13,
         Lk := [13, 15, 17, 19] ! nat i1, Ls := [12, 14, 16] ! nat i2,
         Lh := [13, 15, 17, 19] ! nat i3, La := [10, 11, 14, 18] ! nat i4,
         Lb := [13, 15, 17, 19] ! nat i5, Lp := 16,
         denKick := 4 + d1, denSnare := 3 + d2, denHat := 8 + d3, denArp := 5 + d4,
         denBass := 4 + d5, denClaps := 2 + d6, scale := SCALES ! nat i6, baseNote := 32 + b\<rparr>"
    unfolding setSeed_def Let_def
    by (simp add: e1 e2 e3 e4 e5 e6 e7 e8 e9 e10 e11 e12 e13 SCALES_def)
  moreover note rng_floor_range [OF _ e1] rng_floor_range [OF _ e2] rng_floor_range [OF _ e3]
    rng_floor_range [OF _ e4] rng_floor_range [OF _ e5] rng_floor_range [OF _ e6]
    rng_floor_range [OF _ e7] rng_floor_range [OF _ e8] rng_floor_range [OF _ e9]
    rng_floor_range [OF _ e10] rng_floor_range [OF _ e11] rng_floor_range [OF _ e12]
    rng_floor_range [OF _ e13]
  ultimately show ?thesis by (intro exI conjI) (assumption | simp)+
qed



text \<open>
  C10. \<^verbatim>\<open>updateControls\<close> changes only the tempo, the swing, the hat density and the snare
  density of the engine; the six pattern lengths, the kick, clap, bass and arp densities,
  the scale, the base note, the step counter, the scheduled-time cursor, the volume and
  the running flag are unchanged. Besides, it issues one \<^verbatim>\<open>setTargetAtTime\<close> call to each of
  the reverb send, the delay send and the two panners, starting at the current time.
\<close>

theorem updateControls_changes_only_tempo_swing_hat_snare:
  "(\<exists>b sw h sn. fst (updateControls c t s) = s\<lparr>bpm := b, swing := sw, denHat := h, denSnare := sn\<rparr>) \<and>
   Lk (fst (updateControls c t s)) = Lk s \<and> Ls (fst (updateControls c t s)) = Ls s \<and>
   Lh (fst (updateControls c t s)) = Lh s \<and> La (fst (updateControls c t s)) = La s \<and>
   Lb (fst (updateControls c t s)) = Lb s \<and> Lp (fst (updateControls c t s)) = Lp s \<and>
   denKick (fst (updateControls c t s)) = denKick s \<and>
   denClaps (fst (updateControls c t s)) = denClaps s \<and>
   denBass (fst (updateControls c t s)) = denBass s \<and>
   denArp (fst (updateControls c t s)) = denArp s \<and>
   scale (fst (updateControls c t s)) = scale s \<and>
   baseNote (fst (updateControls c t s)) = baseNote s \<and>
   beat (fst (updateControls c t s)) = beat s \<and>
   nextNoteTime (fst (updateControls c t s)) = nextNoteTime s \<and>
   vol (fst (updateControls c t s)) = vol s \<and>
   running (fst (updateControls c t s)) = running s \<and>
   map (\<lambda>x. case x of SetTargetAtTime p v st tc \<Rightarrow> (p, st, tc)) (snd (updateControls c t s)) =
     [(RevGain, t, 0.25), (DelayGain, t, 0.25), (PanHats, t, 0.1), (PanArp, t, 0.1)]"
  using updateControls_only [of c t s] updateControls_frame [of c t s] updateControls_calls [of c t s]
  by blast

section \<open>The engine built from the seed "abc"\<close>




section \<open>One scheduled step\<close>

lemma euclid_total: "1 \<le> k \<Longrightarrow> 1 \<le> n \<Longrightarrow> \<exists>p. euclid k n rot = Some p"
proof -
  assume k: "1 \<le> k" and n: "1 \<le> n"
  have e: "euclid k n rot = euclid (min k n) n rot" by (simp add: euclid_def)
  have "1 \<le> min k n" "min k n \<le> n" using k n by simp_all
  from euclid_returns [OF this, of rot] show ?thesis unfolding e by blast
qed

lemma only_rng_refl: "only_rng s s"
proof -
  have "s = s\<lparr>rng := rng s\<rparr>" by simp
  then show ?thesis unfolding only_rng_def by (rule exI)
qed

lemma only_rng_trans: "only_rng s s1 \<Longrightarrow> only_rng s1 s2 \<Longrightarrow> only_rng s s2"
proof -
  assume "only_rng s s1" and "only_rng s1 s2"
  then obtain g1 g2 where "s1 = s\<lparr>rng := g1\<rparr>" "s2 = s1\<lparr>rng := g2\<rparr>"
    unfolding only_rng_def by blast
  then have "s2 = s\<lparr>rng := g2\<rparr>" by simp
  then show ?thesis unfolding only_rng_def by (rule exI)
qed

lemma draw_only_rng: "draw s = (v, s') \<Longrightarrow> only_rng s s'"
  by (auto simp: draw_def only_rng_def split: prod.splits)

lemma only_rng_draw2: "draw s = (v, s1) \<Longrightarrow> draw s1 = (w, s2) \<Longrightarrow> only_rng s s2"
  by (blast intro: only_rng_trans draw_only_rng)

lemma only_rng_draw3:
  "draw s = (v, s1) \<Longrightarrow> draw s1 = (w, s2) \<Longrightarrow> draw s2 = (x, s3) \<Longrightarrow> only_rng s s3"
  by (blast intro: only_rng_trans draw_only_rng)

lemma config_ok_only_rng: "only_rng s s' \<Longrightarrow> config_ok s' = config_ok s"
  by (auto simp: only_rng_def config_ok_def)

lemma only_rng_fields:
  assumes "only_rng s s'"
  shows "nextNoteTime s' = nextNoteTime s" "beat s' = beat s" "bpm s' = bpm s"
    "swing s' = swing s" "scheduleAheadTime s' = scheduleAheadTime s"
    "running s' = running s" "interval_handle s' = interval_handle s"
  using assms by (auto simp: only_rng_def)

lemma rng_role_kick: "rng_role (role_kick b t)"
  unfolding rng_role_def
proof (intro allI impI)
  fix s assume "config_ok s"
  then obtain p where p: "euclid (denKick s) (Lk s) 0 = Some p"
    using euclid_total [of "denKick s" "Lk s" 0] by (auto simp: config_ok_def)
  show "\<exists>trigs s'. role_kick b t s = Some (trigs, s') \<and> only_rng s s'"
    by (auto simp: role_kick_def p only_rng_refl split: prod.splits intro: draw_only_rng)
qed

lemma rng_role_snare: "rng_role (role_snare b t)"
  unfolding rng_role_def
proof (intro allI impI)
  fix s assume "config_ok s"
  then obtain p where p: "euclid (denSnare s) (Ls s) 3 = Some p"
    using euclid_total [of "denSnare s" "Ls s" 3] by (auto simp: config_ok_def)
  show "\<exists>trigs s'. role_snare b t s = Some (trigs, s') \<and> only_rng s s'"
    by (auto simp: role_snare_def p only_rng_refl split: prod.splits
        intro: draw_only_rng only_rng_draw2)
qed

lemma rng_role_hat: "rng_role (role_hat b t)"
  unfolding rng_role_def
proof (intro allI impI)
  fix s assume "config_ok s"
  then obtain p where p: "euclid (denHat s) (Lh s) 2 = Some p"
    using euclid_total [of "denHat s" "Lh s" 2] by (auto simp: config_ok_def)
  show "\<exists>trigs s'. role_hat b t s = Some (trigs, s') \<and> only_rng s s'"
    by (auto simp: role_hat_def p only_rng_refl split: prod.splits intro: draw_only_rng)
qed

lemma rng_role_clap: "rng_role (role_clap b t)"
  unfolding rng_role_def
proof (intro allI impI)
  fix s assume "config_ok s"
  then obtain p where p: "euclid (denClaps s) (Ls s) 1 = Some p"
    using euclid_total [of "denClaps s" "Ls s" 1] by (auto simp: config_ok_def)
  show "\<exists>trigs s'. role_clap b t s = Some (trigs, s') \<and> only_rng s s'"
    by (auto simp: role_clap_def p only_rng_refl split: prod.splits intro: draw_only_rng)
qed

lemma rng_role_bass: "rng_role (role_bass b t)"
  unfolding rng_role_def
proof (intro allI impI)
  fix s assume "config_ok s"
  then obtain p where p: "euclid (denBass s) (Lb s) 0 = Some p"
    using euclid_total [of "denBass s" "Lb s" 0] by (auto simp: config_ok_def)
  show "\<exists>trigs s'. role_bass b t s = Some (trigs, s') \<and> only_rng s s'"
    by (auto simp: role_bass_def p only_rng_refl Let_def split: prod.splits
        intro: draw_only_rng only_rng_draw3)
qed

lemma rng_role_arp: "rng_role (role_arp b t)"
  unfolding rng_role_def
proof (intro allI impI)
  fix s assume "config_ok s"
  then obtain p where p: "euclid (denArp s) (La s) 0 = Some p"
    using euclid_total [of "denArp s" "La s" 0] by (auto simp: config_ok_def)
  show "\<exists>trigs s'. role_arp b t s = Some (trigs, s') \<and> only_rng s s'"
    by (auto simp: role_arp_def p only_rng_refl Let_def split: prod.splits
        intro: draw_only_rng only_rng_draw3)
qed

lemma trigPad_only_rng: "trigPad t f a s = (trigs, s') \<Longrightarrow> only_rng s s'"
  by (auto simp: trigPad_def split: prod.splits intro: only_rng_draw3)

lemma rng_role_pad: "rng_role (role_pad b t)"
  unfolding rng_role_def
proof (intro allI impI)
  fix s
  show "\<exists>trigs s'. role_pad b t s = Some (trigs, s') \<and> only_rng s s'"
  proof (cases "Lp s \<noteq> 0 \<and> trunc_rem (trunc_rem b (Lp s)) 8 = 0")
    case False
    then show ?thesis by (auto simp: role_pad_def Let_def only_rng_refl)
  next
    case True
    obtain g s1 where d1: "draw s = (g, s1)" by (cases "draw s")
    obtain v s2 where d2: "draw s1 = (v, s2)" by (cases "draw s1")
    obtain trigs s3 where tp:
      "trigPad t (scale_freq s2 (trunc_rem b (Lp s) div 2 + 1) 24) (0.5 + 0.2 * v) s2 = (trigs, s3)"
      by (cases "trigPad t (scale_freq s2 (trunc_rem b (Lp s) div 2 + 1) 24) (0.5 + 0.2 * v) s2")
    have "only_rng s s1" "only_rng s s3"
      using d1 d2 tp by (blast intro: only_rng_trans draw_only_rng trigPad_only_rng)+
    then show ?thesis using True d1 d2 tp by (auto simp: role_pad_def Let_def)
  qed
qed

lemma run_roles_rng:
  assumes "\<forall>f \<in> set fs. rng_role f"
  shows "rng_role (run_roles fs)"
  using assms
proof (induction fs)
  case Nil
  show ?case by (simp add: rng_role_def only_rng_refl)
next
  case (Cons f fs)
  show ?case unfolding rng_role_def
  proof (intro allI impI)
    fix s assume ok: "config_ok s"
    from Cons.prems have "rng_role f" by simp
    with ok obtain ts s1 where f: "f s = Some (ts, s1)" and r1: "only_rng s s1"
      unfolding rng_role_def by blast
    have ok1: "config_ok s1" using ok config_ok_only_rng [OF r1] by simp
    from Cons.IH Cons.prems have "rng_role (run_roles fs)" by simp
    with ok1 obtain ts' s2 where g: "run_roles fs s1 = Some (ts', s2)" and r2: "only_rng s1 s2"
      unfolding rng_role_def by blast
    show "\<exists>trigs s'. run_roles (f # fs) s = Some (trigs, s') \<and> only_rng s s'"
      using f g only_rng_trans [OF r1 r2] by simp
  qed
qed

lemma scheduleStep_returns:
  assumes "config_ok s"
  shows "\<exists>trigs s'. scheduleStep b t s = Some (trigs, s') \<and> only_rng s s'"
proof -
  have "rng_role (scheduleStep b t)"
    unfolding scheduleStep_def
    by (rule run_roles_rng)
       (simp add: rng_role_kick rng_role_snare rng_role_hat rng_role_clap rng_role_bass
          rng_role_arp rng_role_pad)
  with assms show ?thesis unfolding rng_role_def by blast
qed

section \<open>The lookahead scheduler\<close>

lemma sched_frame_refl: "sched_frame s s"
proof -
  have "s = s\<lparr>rng := rng s, nextNoteTime := nextNoteTime s, beat := beat s\<rparr>" by simp
  then show ?thesis unfolding sched_frame_def by blast
qed

lemma sched_frame_step:
  assumes "only_rng s s1" and "sched_frame (s1\<lparr>nextNoteTime := n, beat := b\<rparr>) s'"
  shows "sched_frame s s'"
proof -
  from assms obtain g g' n' b' where "s1 = s\<lparr>rng := g\<rparr>"
    "s' = (s1\<lparr>nextNoteTime := n, beat := b\<rparr>)\<lparr>rng := g', nextNoteTime := n', beat := b'\<rparr>"
    unfolding only_rng_def sched_frame_def by blast
  then have "s' = s\<lparr>rng := g', nextNoteTime := n', beat := b'\<rparr>" by simp
  then show ?thesis unfolding sched_frame_def by blast
qed

lemma sched_frame_fields:
  assumes "sched_frame s s'"
  shows "bpm s' = bpm s" "swing s' = swing s" "scheduleAheadTime s' = scheduleAheadTime s"
    "running s' = running s" "interval_handle s' = interval_handle s"
    "config_ok s' = config_ok s"
  using assms by (auto simp: sched_frame_def config_ok_def)

lemma scheduler_loop_returns:
  assumes "config_ok s" and "0 < spb"
    and "cur + scheduleAheadTime s - nextNoteTime s \<le> 0.25 * spb * real k"
  shows "\<exists>s' new. scheduler_loop cur spb (s, steps) = Some (s', steps @ new) \<and>
           sched_frame s s' \<and>
           nextNoteTime s' = nextNoteTime s + 0.25 * spb * real (length new) \<and>
           cur + scheduleAheadTime s \<le> nextNoteTime s' \<and>
           (new \<noteq> [] \<longrightarrow> nextNoteTime s' - 0.25 * spb < cur + scheduleAheadTime s)"
  using assms
proof (induction k arbitrary: s steps)
  case 0
  then have "\<not> nextNoteTime s < cur + scheduleAheadTime s" by simp
  then have "scheduler_loop cur spb (s, steps) = Some (s, steps @ [])"
    by (subst scheduler_loop.simps) simp
  moreover have "cur + scheduleAheadTime s \<le> nextNoteTime s" using 0 by simp
  ultimately show ?case using sched_frame_refl [of s] by force
next
  case (Suc k)
  show ?case
  proof (cases "nextNoteTime s < cur + scheduleAheadTime s")
    case False
    then have "scheduler_loop cur spb (s, steps) = Some (s, steps @ [])"
      by (subst scheduler_loop.simps) simp
    moreover have "cur + scheduleAheadTime s \<le> nextNoteTime s" using False by simp
    ultimately show ?thesis using sched_frame_refl [of s] by force
  next
    case True
    define t where "t = nextNoteTime s +
      (if trunc_rem (beat s) 2 = 1 then swing s * spb * 0.5 else 0)"
    from scheduleStep_returns [OF Suc.prems(1), of "beat s" t]
    obtain trigs s1 where st: "scheduleStep (beat s) t s = Some (trigs, s1)"
      and r: "only_rng s s1" by blast
    define s2 where "s2 = s1\<lparr>nextNoteTime := nextNoteTime s1 + 0.25 * spb,
      beat := trunc_rem (beat s1 + 1) 4096\<rparr>"
    note f = only_rng_fields [OF r]
    have ok2: "config_ok s2"
      using Suc.prems(1) config_ok_only_rng [OF r] by (simp add: s2_def config_ok_def)
    have n2: "nextNoteTime s2 = nextNoteTime s + 0.25 * spb"
      and a2: "scheduleAheadTime s2 = scheduleAheadTime s"
      by (simp_all add: s2_def f)
    have m2: "cur + scheduleAheadTime s2 - nextNoteTime s2 \<le> 0.25 * spb * real k"
      using Suc.prems(3) by (simp add: n2 a2 algebra_simps)
    from Suc.IH [OF ok2 Suc.prems(2) m2, of "steps @ [(beat s, t, trigs)]"]
    obtain s' new where
      l: "scheduler_loop cur spb (s2, steps @ [(beat s, t, trigs)])
            = Some (s', (steps @ [(beat s, t, trigs)]) @ new)"
      and fr: "sched_frame s2 s'"
      and nn: "nextNoteTime s' = nextNoteTime s2 + 0.25 * spb * real (length new)"
      and ex: "cur + scheduleAheadTime s2 \<le> nextNoteTime s'"
      and la: "new \<noteq> [] \<longrightarrow> nextNoteTime s' - 0.25 * spb < cur + scheduleAheadTime s2"
      by blast
    have "scheduler_loop cur spb (s, steps)
            = scheduler_loop cur spb (s2, steps @ [(beat s, t, trigs)])"
      using True st by (subst scheduler_loop.simps) (simp add: Let_def t_def s2_def)
    with l have loop:
      "scheduler_loop cur spb (s, steps) = Some (s', steps @ ((beat s, t, trigs) # new))"
      by simp
    have frame: "sched_frame s s'"
      using sched_frame_step [OF r] fr unfolding s2_def by blast
    have len: "nextNoteTime s' = nextNoteTime s + 0.25 * spb * real (length ((beat s, t, trigs) # new))"
      using nn n2 by (simp add: algebra_simps)
    have last: "nextNoteTime s' - 0.25 * spb < cur + scheduleAheadTime s"
    proof (cases "new = []")
      case True
      then show ?thesis using nn n2 \<open>nextNoteTime s < cur + scheduleAheadTime s\<close> by simp
    next
      case False
      then show ?thesis using la a2 by simp
    qed
    show ?thesis using loop frame len ex a2 last by force
  qed
qed

lemma scheduler_returns:
  assumes "config_ok s" and "0 < bpm s"
  shows "\<exists>s' new. scheduler cur s = Some (s', new) \<and> sched_frame s s' \<and>
           nextNoteTime s' = nextNoteTime s + 15 / bpm s * real (length new) \<and>
           cur + scheduleAheadTime s \<le> nextNoteTime s' \<and>
           (new \<noteq> [] \<longrightarrow> nextNoteTime s' - 15 / bpm s < cur + scheduleAheadTime s)"
proof -
  define spb where "spb = 60 / bpm s"
  have spb: "0 < spb" using assms(2) by (simp add: spb_def)
  have q: "0.25 * spb = 15 / bpm s" by (simp add: spb_def)
  have "0 < 0.25 * spb" using spb by simp
  from reals_Archimedean3 [OF this]
  obtain k where "cur + scheduleAheadTime s - nextNoteTime s < real k * (0.25 * spb)" by blast
  then have k: "cur + scheduleAheadTime s - nextNoteTime s \<le> 0.25 * spb * real k"
    by (simp add: mult.commute)
  from scheduler_loop_returns [OF assms(1) spb k, of "[]"]
  show ?thesis using assms(2) unfolding q by (simp add: scheduler_def spb_def)
qed

lemma tick_returns:
  assumes "timers w \<noteq> []" and "config_ok (eng w)" and "0 < bpm (eng w)"
  shows "\<exists>s' new. tick cur w = Some (w\<lparr>eng := s'\<rparr>, map Scheduled new) \<and>
           sched_frame (eng w) s' \<and>
           nextNoteTime s' = nextNoteTime (eng w) + 15 / bpm (eng w) * real (length new) \<and>
           cur + scheduleAheadTime (eng w) \<le> nextNoteTime s' \<and>
           (new \<noteq> [] \<longrightarrow> nextNoteTime s' - 15 / bpm (eng w) < cur + scheduleAheadTime (eng w))"
proof -
  from scheduler_returns [OF assms(2,3), of cur] obtain s' new where
    "scheduler cur (eng w) = Some (s', new)" and rest: "sched_frame (eng w) s'"
    "nextNoteTime s' = nextNoteTime (eng w) + 15 / bpm (eng w) * real (length new)"
    "cur + scheduleAheadTime (eng w) \<le> nextNoteTime s'"
    "new \<noteq> [] \<longrightarrow> nextNoteTime s' - 15 / bpm (eng w) < cur + scheduleAheadTime (eng w)"
    by blast
  then have "tick cur w = Some (w\<lparr>eng := s'\<rparr>, map Scheduled new)"
    using assms(1) by (simp add: tick_def)
  with rest show ?thesis by blast
qed

lemma run_ticks:
  assumes "timers w \<noteq> []" and "config_ok (eng w)" and "0 < bpm (eng w)"
    and "15 / bpm (eng w) = q" and "scheduleAheadTime (eng w) = A"
    and "\<forall>c \<in> set cs. c \<le> U"
    and "nextNoteTime (eng w) = N0 + q * real m"
    and "0 < m \<longrightarrow> N0 + q * real m - q < U + A"
  shows "\<exists>w' out. run (map Tick cs) w = Some (w', out) \<and>
           length (filter is_scheduled out) = length out \<and>
           nextNoteTime (eng w') = N0 + q * real (m + length out) \<and>
           (0 < m + length out \<longrightarrow> N0 + q * real (m + length out) - q < U + A) \<and>
           (cs \<noteq> [] \<longrightarrow> last cs + A \<le> nextNoteTime (eng w'))"
  using assms
proof (induction cs arbitrary: w m)
  case Nil
  then show ?case by simp
next
  case (Cons c cs)
  from tick_returns [OF Cons.prems(1,2,3), of c] obtain s' new where
    t: "tick c w = Some (w\<lparr>eng := s'\<rparr>, map Scheduled new)"
    and fr: "sched_frame (eng w) s'"
    and nn: "nextNoteTime s' = nextNoteTime (eng w) + q * real (length new)"
    and ex: "c + A \<le> nextNoteTime s'"
    and la: "new \<noteq> [] \<longrightarrow> nextNoteTime s' - q < c + A"
    unfolding Cons.prems(4,5) by blast
  define w1 where "w1 = w\<lparr>eng := s'\<rparr>"
  note f = sched_frame_fields [OF fr]
  have e1: "eng w1 = s'" and t1: "timers w1 = timers w" by (simp_all add: w1_def)
  have c: "c \<le> U" using Cons.prems(6) by simp
  have p1: "timers w1 \<noteq> []" using Cons.prems(1) t1 by simp
  have p2: "config_ok (eng w1)" using Cons.prems(2) f e1 by simp
  have p3: "0 < bpm (eng w1)" using Cons.prems(3) f e1 by simp
  have p4: "15 / bpm (eng w1) = q" using Cons.prems(4) f e1 by simp
  have p5: "scheduleAheadTime (eng w1) = A" using Cons.prems(5) f e1 by simp
  have p6: "\<forall>c \<in> set cs. c \<le> U" using Cons.prems(6) by simp
  have p7: "nextNoteTime (eng w1) = N0 + q * real (m + length new)"
    unfolding e1 nn Cons.prems(7) by (simp add: algebra_simps)
  have p8: "0 < m + length new \<longrightarrow> N0 + q * real (m + length new) - q < U + A"
  proof (cases "new = []")
    case True
    then show ?thesis using Cons.prems(8) by simp
  next
    case False
    then have "nextNoteTime s' - q < c + A" using la by simp
    then show ?thesis using c p7 unfolding e1 by simp
  qed
  from Cons.IH [OF p1 p2 p3 p4 p5 p6 p7 p8] obtain w' out where
    r: "run (map Tick cs) w1 = Some (w', out)"
    and sc: "length (filter is_scheduled out) = length out"
    and n': "nextNoteTime (eng w') = N0 + q * real (m + length new + length out)"
    and u': "0 < m + length new + length out \<longrightarrow>
        N0 + q * real (m + length new + length out) - q < U + A"
    and l': "cs \<noteq> [] \<longrightarrow> last cs + A \<le> nextNoteTime (eng w')"
    by blast
  have run: "run (map Tick (c # cs)) w = Some (w', map Scheduled new @ out)"
    using t r by (simp add: w1_def)
  have sc': "length (filter is_scheduled (map Scheduled new @ out)) = length (map Scheduled new @ out)"
    using sc by (simp add: filter_map comp_def)
  have len: "m + length (map Scheduled new @ out) = m + length new + length out" by simp
  have lastc: "last (c # cs) + A \<le> nextNoteTime (eng w')"
  proof (cases "cs = []")
    case True
    then have "w' = w1" "out = []" using r by simp_all
    then show ?thesis using ex True e1 by simp
  next
    case False
    then show ?thesis using l' by simp
  qed
  have n'': "nextNoteTime (eng w') = N0 + q * real (m + length (map Scheduled new @ out))"
    and u'': "0 < m + length (map Scheduled new @ out) \<longrightarrow>
        N0 + q * real (m + length (map Scheduled new @ out)) - q < U + A"
    using n' u' unfolding len by simp_all
  show ?case
    using run sc' n'' u'' lastc by blast
qed

lemma start_then_ticks_120:
  assumes ok: "config_ok (eng w)" and bpm: "bpm (eng w) = 120"
    and ahead: "scheduleAheadTime (eng w) = 0.15" and stopped: "\<not> running (eng w)"
    and ne: "cs \<noteq> []" and le: "\<forall>c \<in> set cs. c \<le> T0 + 10" and last: "T0 + 9.9 < last cs"
  shows "\<exists>w' out. run (CallStart # ResumeSettled True T0 # map Tick cs) w = Some (w', out) \<and>
           length (filter is_scheduled out) = 81"
proof -
  define w2 where "w2 = start_resumed T0 ((start_call w)\<lparr>awaiting := awaiting (start_call w) - 1,
     ctx_suspended := False\<rparr>)"
  have f1: "fire CallStart w = Some (start_call w, [])" by simp
  have aw: "awaiting (start_call w) \<noteq> 0" using stopped by (simp add: start_call_def)
  have f2: "fire (ResumeSettled True T0) (start_call w) = Some (w2, [])"
    using aw by (simp add: resume_settled_def w2_def)
  have e2: "eng w2 = (eng w)\<lparr>running := True, nextNoteTime := T0 + 0.05, beat := 0,
      interval_handle := Some (last_id w + 1)\<rparr>"
    using stopped by (simp add: w2_def start_resumed_def start_call_def Let_def)
  have t2: "timers w2 \<noteq> []" by (simp add: w2_def start_resumed_def Let_def)
  have ok2: "config_ok (eng w2)" using ok unfolding e2 by (simp add: config_ok_def)
  have b2: "0 < bpm (eng w2)" and q2: "15 / bpm (eng w2) = 1 / 8"
    and a2: "scheduleAheadTime (eng w2) = 0.15"
    using bpm ahead unfolding e2 by simp_all
  have n2: "nextNoteTime (eng w2) = (T0 + 0.05) + 1 / 8 * real (0::nat)"
    unfolding e2 by simp
  have u2: "0 < (0::nat) \<longrightarrow> (T0 + 0.05) + 1 / 8 * real (0::nat) - 1 / 8 < (T0 + 10) + 0.15"
    by simp
  from run_ticks [OF t2 ok2 b2 q2 a2 le n2 u2] obtain w' out where
    r: "run (map Tick cs) w2 = Some (w', out)"
    and sc: "length (filter is_scheduled out) = length out"
    and n': "nextNoteTime (eng w') = (T0 + 0.05) + 1 / 8 * real (0 + length out)"
    and u': "0 < 0 + length out \<longrightarrow>
        (T0 + 0.05) + 1 / 8 * real (0 + length out) - 1 / 8 < (T0 + 10) + 0.15"
    and l': "cs \<noteq> [] \<longrightarrow> last cs + 0.15 \<le> nextNoteTime (eng w')"
    by blast
  have lo: "80 < real (length out)" using l' ne last n' by simp
  then have pos: "0 < length out" by (cases "length out") simp_all
  have hi: "real (length out) < 82" using u' pos by simp
  have "80 < length out" "length out < 82" using lo hi by simp_all
  then have "length out = 81" by simp
  moreover have "run (CallStart # ResumeSettled True T0 # map Tick cs) w = Some (w', out)"
    using f1 f2 r by simp
  ultimately show ?thesis using sc by simp
qed

lemma interval_ticks_10s:
  "interval_ticks T0 0.025 400 \<noteq> [] \<and> (\<forall>c \<in> set (interval_ticks T0 0.025 400). c \<le> T0 + 10) \<and>
   last (interval_ticks T0 0.025 400) = T0 + 10"
proof -
  have a: "[1..<Suc 400] \<noteq> []" by simp
  have "last (interval_ticks T0 0.025 400) = T0 + 0.025 * real (last [1..<Suc 400])"
    unfolding interval_ticks_def using a by (rule last_map)
  also have "last [1..<Suc 400] = 400" by simp
  finally have l: "last (interval_ticks T0 0.025 400) = T0 + 10" by simp
  have "c \<le> T0 + 10" if "c \<in> set (interval_ticks T0 0.025 400)" for c
  proof -
    from that obtain i where i: "i < Suc 400" and c: "c = T0 + 0.025 * real i"
      unfolding interval_ticks_def by auto
    from i have "real i \<le> 400" by simp
    then show ?thesis unfolding c by simp
  qed
  then show ?thesis using l a by (simp add: interval_ticks_def)
qed

section \<open>Start and stop\<close>





section \<open>The first step of the engine built from the seed "abc"\<close>




section \<open>Densities and lengths\<close>

lemma table_nth: "0 \<le> i \<Longrightarrow> i < int (length xs) \<Longrightarrow> xs ! nat i \<in> set xs"
  by (rule nth_mem) simp

lemma setSeed_seeded:
  "seeded (setSeed seed s) \<and> denSnare (setSeed seed s) \<le> 6 \<and> denHat (setSeed seed s) \<le> 13 \<and>
   running (setSeed seed s) = running s \<and> bpm (setSeed seed s) = bpm s \<and>
   scheduleAheadTime (setSeed seed s) = scheduleAheadTime s"
proof -
  from setSeed_shape [of seed s] obtain i1 i2 i3 i4 i5 d1 d2 d3 d4 d5 d6 i6 b g where
    e: "setSeed seed s =
       s\<lparr>rng := g,
         Lk := [13, 15, 17, 19] ! nat i1, Ls := [12, 14, 16] ! nat i2,
         Lh := [13, 15, 17, 19] ! nat i3, La := [10, 11, 14, 18] ! nat i4,
         Lb := [13, 15, 17, 19] ! nat i5, Lp := 16,
         denKick := 4 + d1, denSnare := 3 + d2, denHat := 8 + d3, denArp := 5 + d4,
         denBass := 4 + d5, denClaps := 2 + d6, scale := SCALES ! nat i6, baseNote := 32 + b\<rparr>"
    and r: "0 \<le> i1 \<and> i1 < 4" "0 \<le> i2 \<and> i2 < 3" "0 \<le> i3 \<and> i3 < 4" "0 \<le> i4 \<and> i4 < 4"
      "0 \<le> i5 \<and> i5 < 4" "0 \<le> d1 \<and> d1 < 4" "0 \<le> d2 \<and> d2 < 4" "0 \<le> d3 \<and> d3 < 6"
      "0 \<le> d4 \<and> d4 < 6" "0 \<le> d5 \<and> d5 < 5" "0 \<le> d6 \<and> d6 < 3"
    by blast
  have t: "[13, 15, 17, 19] ! nat i1 \<in> {13, 15, 17, 19 :: int}"
    "[12, 14, 16] ! nat i2 \<in> {12, 14, 16 :: int}"
    "[13, 15, 17, 19] ! nat i3 \<in> {13, 15, 17, 19 :: int}"
    "[10, 11, 14, 18] ! nat i4 \<in> {10, 11, 14, 18 :: int}"
    "[13, 15, 17, 19] ! nat i5 \<in> {13, 15, 17, 19 :: int}"
    using table_nth [of i1 "[13, 15, 17, 19 :: int]"] table_nth [of i2 "[12, 14, 16 :: int]"]
      table_nth [of i3 "[13, 15, 17, 19 :: int]"] table_nth [of i4 "[10, 11, 14, 18 :: int]"]
      table_nth [of i5 "[13, 15, 17, 19 :: int]"] r
    by simp_all
  have f: "Lk (setSeed seed s) = [13, 15, 17, 19] ! nat i1"
    "Ls (setSeed seed s) = [12, 14, 16] ! nat i2"
    "Lh (setSeed seed s) = [13, 15, 17, 19] ! nat i3"
    "La (setSeed seed s) = [10, 11, 14, 18] ! nat i4"
    "Lb (setSeed seed s) = [13, 15, 17, 19] ! nat i5"
    "Lp (setSeed seed s) = 16"
    "denKick (setSeed seed s) = 4 + d1" "denSnare (setSeed seed s) = 3 + d2"
    "denHat (setSeed seed s) = 8 + d3" "denArp (setSeed seed s) = 5 + d4"
    "denBass (setSeed seed s) = 4 + d5" "denClaps (setSeed seed s) = 2 + d6"
    "running (setSeed seed s) = running s" "bpm (setSeed seed s) = bpm s"
    "scheduleAheadTime (setSeed seed s) = scheduleAheadTime s"
    unfolding e by simp_all
  have "seeded (setSeed seed s)"
    unfolding seeded_def f using t r by (intro conjI) (assumption | linarith)+
  moreover have "denSnare (setSeed seed s) \<le> 6" "denHat (setSeed seed s) \<le> 13"
    unfolding f using r by linarith+
  ultimately show ?thesis using f(13,14,15) by blast
qed



lemma seeded_lengths:
  assumes "seeded s"
  shows "13 \<le> Lk s" "12 \<le> Ls s" "13 \<le> Lh s" "10 \<le> La s" "13 \<le> Lb s"
proof -
  have "Lk s \<in> {13, 15, 17, 19}" using assms by (simp add: seeded_def)
  then show "13 \<le> Lk s" by auto
  have "Ls s \<in> {12, 14, 16}" using assms by (simp add: seeded_def)
  then show "12 \<le> Ls s" by auto
  have "Lh s \<in> {13, 15, 17, 19}" using assms by (simp add: seeded_def)
  then show "13 \<le> Lh s" by auto
  have "La s \<in> {10, 11, 14, 18}" using assms by (simp add: seeded_def)
  then show "10 \<le> La s" by auto
  have "Lb s \<in> {13, 15, 17, 19}" using assms by (simp add: seeded_def)
  then show "13 \<le> Lb s" by auto
qed

lemma seeded_bounds:
  assumes "seeded s"
  shows "4 \<le> denKick s" "denKick s \<le> 7" "3 \<le> denSnare s" "denSnare s \<le> 8"
    "8 \<le> denHat s" "denHat s \<le> 16" "5 \<le> denArp s" "denArp s \<le> 10"
    "4 \<le> denBass s" "denBass s \<le> 8" "2 \<le> denClaps s" "denClaps s \<le> 4"
  using assms by (simp_all add: seeded_def)


lemma seeded_config_ok: "seeded s \<Longrightarrow> config_ok s"
  unfolding config_ok_def
  using seeded_lengths [of s] seeded_bounds [of s] by (intro conjI) linarith+

lemma new_engine_facts:
  "\<not> running (new_engine seed)" "bpm (new_engine seed) = 110"
  "scheduleAheadTime (new_engine seed) = 0.15" "config_ok (new_engine seed)"
  using setSeed_seeded [of seed field_defaults] seeded_config_ok [of "new_engine seed"]
  by (simp_all add: new_engine_def field_defaults_def)



section \<open>Claims about start and stop\<close>





text \<open>
  C5. The claim: if \<^verbatim>\<open>ctx.resume()\<close> fails during \<^verbatim>\<open>start()\<close>, the transport remains stopped
  and the failure is reported. In the code the failure is reported (the promise returned by
  \<^verbatim>\<open>start()\<close> rejects) and no timer is installed, but \<^verbatim>\<open>this.running = true\<close> was executed
  before the \<^verbatim>\<open>await\<close> and is never undone: the running flag stays set. A later \<^verbatim>\<open>start()\<close>
  then returns at its first line, even when the audio context would now resume.
\<close>

theorem failed_start_leaves_running_flag_set:
  "run [CallStart, ResumeSettled False t] (new_world seed) =
     Some ((new_world seed)\<lparr>eng := (new_engine seed)\<lparr>running := True\<rparr>\<rparr>, [StartRejected]) \<and>
   run [CallStart, ResumeSettled False t, CallStart, ResumeSettled True t'] (new_world seed) =
     Some ((new_world seed)\<lparr>eng := (new_engine seed)\<lparr>running := True\<rparr>\<rparr>, [StartRejected])"
  using new_engine_facts(1) [of seed]
  by (simp add: new_world_def start_call_def resume_settled_def)

section \<open>Ten seconds at 120 beats per minute\<close>

lemma world_at_120_facts:
  "config_ok (eng (world_at_120 seed))" "bpm (eng (world_at_120 seed)) = 120"
  "scheduleAheadTime (eng (world_at_120 seed)) = 0.15" "\<not> running (eng (world_at_120 seed))"
  using new_engine_facts [of seed] by (simp_all add: world_at_120_def new_world_def config_ok_def)

text \<open>
  C9, as the code has it: start the transport at clock \<open>T0\<close> with the tempo fixed at 120
  BPM, then let the scheduler tick at any instants up to \<open>T0 + 10\<close>, the last of them
  later than \<open>T0 + 9.9\<close> (as with an interval of 25 ms): exactly 81 sixteenth-note steps
  are scheduled. The first step is at \<open>T0 + 0.05\<close>, steps are \<open>0.125\<close> s apart, and a tick
  at clock \<open>c\<close> schedules every step before \<open>c + 0.15\<close>.
\<close>

theorem ten_seconds_at_120_bpm_schedule_81_steps:
  assumes "config_ok (eng w)" and "bpm (eng w) = 120"
    and "scheduleAheadTime (eng w) = 0.15" and "\<not> running (eng w)"
    and "cs \<noteq> []" and "\<forall>c \<in> set cs. c \<le> T0 + 10" and "T0 + 9.9 < last cs"
  shows "steps_scheduled (CallStart # ResumeSettled True T0 # map Tick cs) w = Some 81"
  using start_then_ticks_120 [OF assms] by (auto simp: steps_scheduled_def)

theorem ten_seconds_at_120_bpm_schedule_81_steps_witness:
  "config_ok (eng (world_at_120 (of_ascii ''abc''))) \<and>
   bpm (eng (world_at_120 (of_ascii ''abc''))) = 120 \<and>
   scheduleAheadTime (eng (world_at_120 (of_ascii ''abc''))) = 0.15 \<and>
   \<not> running (eng (world_at_120 (of_ascii ''abc''))) \<and>
   interval_ticks 0 0.025 400 \<noteq> [] \<and>
   Max (set (interval_ticks 0 0.025 400)) \<le> 0 + 10 \<and>
   0 + 9.9 < last (interval_ticks 0 0.025 400) \<and>
   steps_scheduled (CallStart # ResumeSettled True 0 # map Tick (interval_ticks 0 0.025 400))
     (world_at_120 (of_ascii ''abc'')) = Some 81"
proof -
  note h = world_at_120_facts [of "of_ascii ''abc''"]
  have t: "interval_ticks 0 0.025 400 \<noteq> []"
    "\<forall>c \<in> set (interval_ticks 0 0.025 400). c \<le> 0 + 10"
    "0 + 9.9 < last (interval_ticks 0 0.025 400)"
    using interval_ticks_10s [of 0] by simp_all
  have "Max (set (interval_ticks 0 0.025 400)) \<le> 0 + 10"
    using t(1,2) by simp
  with ten_seconds_at_120_bpm_schedule_81_steps [OF h t] h t show ?thesis by blast
qed

text \<open>
  C9. The claim: 10 seconds at 120 BPM schedule exactly 80 steps. With the seed \<^verbatim>\<open>"abc"\<close>, a
  start at clock 0 and the 400 ticks of a 25 ms interval, the count is not 80.
\<close>

theorem ten_seconds_at_120_bpm_not_80_steps:
  "steps_scheduled (CallStart # ResumeSettled True 0 # map Tick (interval_ticks 0 0.025 400))
     (world_at_120 (of_ascii ''abc'')) \<noteq> Some 80"
proof -
  note h = world_at_120_facts [of "of_ascii ''abc''"]
  have t: "interval_ticks 0 0.025 400 \<noteq> []"
    "\<forall>c \<in> set (interval_ticks 0 0.025 400). c \<le> 0 + 10"
    "0 + 9.9 < last (interval_ticks 0 0.025 400)"
    using interval_ticks_10s [of 0] by simp_all
  from start_then_ticks_120 [OF h t] show ?thesis by (auto simp: steps_scheduled_def)
qed

end
